theory Spec2Isabelle
  imports Main "HOL-Library.Word"
begin

section \<open>Data model of the radix tree (radix\_tree.cc)\<close>

text \<open>
  A global pointer is a 64-bit word, 0 being the null pointer. Key bytes are 8-bit words;
  the order \<open><\<close> on words is the unsigned one. A caller's key \<open>(key, key_size)\<close> is a
  byte list, \<open>key_size\<close> being its length.
\<close>

type_synonym Gptr = "64 word"
type_synonym byte = "8 word"

text \<open>
  Modelled from the spec: the class \<open>TagGptr\<close> is declared in a header that is not part
  of the sources. Spec section 3: a pair \<open>(gptr, tag)\<close> of two 64-bit halves, valid iff
  the \<open>gptr\<close> half is non-zero, two of them equal iff both halves are equal; the default
  constructor gives the pair \<open>(0, 0)\<close>.
\<close>

record TagGptr =
  gptr :: Gptr
  tag :: "64 word"

definition TagGptr0 :: TagGptr where
  "TagGptr0 = \<lparr>gptr = 0, tag = 0\<rparr>"

definition IsValid :: "TagGptr \<Rightarrow> bool" where
  "IsValid tq = (gptr tq \<noteq> 0)"

text \<open>
  \<open>struct RadixTree::Node\<close>: the key buffer \<open>char key[MAX_KEY_LEN]\<close>, \<open>prefix_size\<close>,
  the 256 child slots (indexed by a byte) and the tagged value.
\<close>

record Node =
  n_key :: "byte list"
  n_prefix_size :: nat
  n_child :: "byte \<Rightarrow> Gptr"
  n_value :: TagGptr

text \<open>
  The tree object together with the shared memory it lives in. \<open>mem\<close> is the memory as
  seen through \<open>toLocal\<close>; \<open>allocs\<close> lists what the following calls of \<open>heap->Alloc\<close>
  return (0 once the list is used up) and \<open>freed\<close> records the pointers given to
  \<open>heap->Free\<close>. The class constants \<open>MAX_KEY_LEN\<close>, \<open>alloc_retry_cnt\<close> and
  \<open>OPEN_BOUNDARY_KEY\<close> (with its size) are declared in the missing header
  \<open>radix_tree.h\<close>; they are fields here, so every result holds for each choice of them.
  \<open>NDEBUG\<close> is the macro of the build: where it is set, the \<open>assert\<close>s are compiled out.
\<close>

record RadixTree =
  root :: Gptr
  mem :: "Gptr \<rightharpoonup> Node"
  allocs :: "Gptr list"
  freed :: "Gptr list"
  MAX_KEY_LEN :: nat
  alloc_retry_cnt :: int
  OPEN_BOUNDARY_KEY :: "byte list"
  NDEBUG :: bool

text \<open>
  No operation of the source has an error result. Where the result of the model is an
  error, the program stops there: at an \<open>assert\<close> that fails, at a read outside a buffer
  or at the use of a null pointer. The \<open>assert\<close>s on the arguments of a call state its
  contract, and the \<open>assert\<close>s on a translated pointer are followed at once by an access
  through that pointer: both stop the operation in either build. The \<open>assert\<close>s on the
  result of an allocation are modelled for each build: compiled in, a failed one stops
  the program (\<open>Assert_alloc\<close>); compiled out, the operation goes on with the null
  pointer, \<open>toLocal\<close> gives the null local pointer, the \<open>assert\<close> on it is compiled out
  as well, and the write through it is the error \<open>Null_pointer\<close>.
\<close>

datatype error =
    Assert_key_size
  | Assert_alloc
  | Assert_local
  | Assert_prefix
  | Assert_iter_key
  | Assert_key_ptr
  | Null_pointer
  | Key_index_out_of_range
  | Node_key_out_of_range
  | Child_index_out_of_range

section \<open>The collaborators: memory manager, heap, atomics, memcmp\<close>

text \<open>
  Modelled from the spec: \<open>Mmgr::GlobalToLocal\<close> (section 6) translates a global
  pointer to a local one; it is null for the null pointer and for a pointer that is not
  mapped.
\<close>

definition toLocal :: "RadixTree \<Rightarrow> Gptr \<Rightarrow> Node option" where
  "toLocal t q = (if q = 0 then None else mem t q)"

text \<open>
  Modelled from the spec: \<open>Heap::Alloc\<close> and \<open>Heap::Free\<close> (section 6). \<open>Alloc\<close>
  returns a global pointer, or 0 on failure; the contents of the block are whatever the
  memory holds there.
\<close>

definition Alloc :: "RadixTree \<Rightarrow> Gptr \<times> RadixTree" where
  "Alloc t = (case allocs t of [] \<Rightarrow> (0, t) | a # as \<Rightarrow> (a, t\<lparr>allocs := as\<rparr>))"

definition Free :: "RadixTree \<Rightarrow> Gptr \<Rightarrow> RadixTree" where
  "Free t a = t\<lparr>freed := a # freed t\<rparr>"

text \<open>
  A pointer \<open>Gptr *p\<close> into the tree is null or the address of a child slot
  \<open>&n->child[b]\<close>, given by the node's global pointer and the byte.
\<close>

type_synonym slot = "(Gptr \<times> byte) option"

text \<open>
  Modelled from the spec: the atomics \<open>fam_atomic_u64_compare_and_store\<close> and
  \<open>fam_atomic_128_compare_and_store\<close> (section 4.1) behind \<open>cas64\<close> and \<open>casTagGptr\<close>:
  the slot is overwritten iff it holds the expected value, and the value observed before
  the attempt is returned.
\<close>

definition cas64 :: "RadixTree \<Rightarrow> slot \<Rightarrow> Gptr \<Rightarrow> Gptr \<Rightarrow> error + (Gptr \<times> RadixTree)" where
  "cas64 t p old_value new_value =
     (case p of
        None \<Rightarrow> Inl Null_pointer
      | Some (a, b) \<Rightarrow>
          (case mem t a of
             None \<Rightarrow> Inl Null_pointer
           | Some n \<Rightarrow>
               Inr (n_child n b,
                    if n_child n b = old_value
                    then t\<lparr>mem := (mem t)(a \<mapsto> n\<lparr>n_child := (n_child n)(b := new_value)\<rparr>)\<rparr>
                    else t)))"

definition casTagGptr :: "RadixTree \<Rightarrow> Gptr \<Rightarrow> TagGptr \<Rightarrow> TagGptr \<Rightarrow> error + (TagGptr \<times> RadixTree)" where
  "casTagGptr t a old_value new_value =
     (case mem t a of
        None \<Rightarrow> Inl Null_pointer
      | Some n \<Rightarrow>
          Inr (n_value n,
               if n_value n = old_value
               then t\<lparr>mem := (mem t)(a \<mapsto> n\<lparr>n_value := new_value\<rparr>)\<rparr>
               else t))"

text \<open>A plain write through a local node pointer.\<close>

definition modify_node :: "RadixTree \<Rightarrow> Gptr \<Rightarrow> (Node \<Rightarrow> Node) \<Rightarrow> error + RadixTree" where
  "modify_node t a f =
     (case mem t a of
        None \<Rightarrow> Inl Null_pointer
      | Some n \<Rightarrow> Inr (t\<lparr>mem := (mem t)(a \<mapsto> f n)\<rparr>))"

text \<open>
  Modelled from the spec: \<open>fam_memcmp\<close> is declared outside the sources; sections 4.3
  and 4.5 use it as \<open>memcmp\<close>: the first \<open>n\<close> bytes of both buffers are compared as
  unsigned bytes, the result is negative, zero or positive. A buffer shorter than \<open>n\<close>
  bytes is a read out of range.
\<close>

fun fam_memcmp :: "byte list \<Rightarrow> byte list \<Rightarrow> nat \<Rightarrow> error + int" where
  "fam_memcmp a b 0 = Inr 0"
| "fam_memcmp (x # xs) (y # ys) (Suc n) =
     (if x = y then fam_memcmp xs ys n else Inr (if x < y then - 1 else 1))"
| "fam_memcmp a b (Suc n) = Inl Key_index_out_of_range"

section \<open>put\<close>

text \<open>
  \<open>for (i = 0; i < max_i; i++) if (key[i] != n->key[i]) break;\<close>
\<close>

function first_mismatch :: "byte list \<Rightarrow> byte list \<Rightarrow> nat \<Rightarrow> nat \<Rightarrow> error + nat" where
  "first_mismatch key nkey max_i i =
     (if i < max_i then
        (if length key \<le> i then Inl Key_index_out_of_range
         else if length nkey \<le> i then Inl Node_key_out_of_range
         else if key ! i \<noteq> nkey ! i then Inr i
         else first_mismatch key nkey max_i (Suc i))
      else Inr i)"
  by pat_completeness auto
termination
  by (relation "measure (\<lambda>(key, nkey, max_i, i). max_i - i)") auto

text \<open>
  \<open>int cnt = alloc_retry_cnt; while (ptr == 0 && (cnt--) > 0) ptr = heap->Alloc(sizeof(Node));\<close>
\<close>

function alloc_retry :: "int \<Rightarrow> Gptr \<Rightarrow> RadixTree \<Rightarrow> Gptr \<times> RadixTree" where
  "alloc_retry cnt ptr t =
     (if ptr = 0 \<and> 0 < cnt
      then (case Alloc t of (a, t') \<Rightarrow> alloc_retry (cnt - 1) a t')
      else (ptr, t))"
  by pat_completeness auto
termination
  by (relation "measure (\<lambda>(cnt, ptr, t). nat cnt)") auto

text \<open>
  The allocation of the new leaf (the same block in case 1 and in case 2 of \<open>put\<close>):
  only the key bytes, \<open>prefix_size\<close> and \<open>value\<close> of the block are written.
\<close>

definition alloc_new_leaf :: "RadixTree \<Rightarrow> byte list \<Rightarrow> Gptr \<Rightarrow> error + (Gptr \<times> RadixTree)" where
  "alloc_new_leaf t key val =
     (case alloc_retry (alloc_retry_cnt t) 0 t of
        (new_leaf_ptr, t1) \<Rightarrow>
          if new_leaf_ptr = 0 \<and> \<not> NDEBUG t then Inl Assert_alloc
          else (case toLocal t1 new_leaf_ptr of
                  None \<Rightarrow> Inl (if NDEBUG t then Null_pointer else Assert_local)
                | Some n \<Rightarrow>
                    if length (n_key n) < length key then Inl Node_key_out_of_range
                    else Inr (new_leaf_ptr,
                           t1\<lparr>mem := (mem t1)(new_leaf_ptr \<mapsto>
                                 n\<lparr>n_key := key @ drop (length key) (n_key n),
                                   n_prefix_size := length key,
                                   n_value := \<lparr>gptr = val, tag = 0\<rparr>\<rparr>)\<rparr>)))"

text \<open>
  The allocation of the intermediate node: the whole key is copied and the children are
  zeroed.
\<close>

definition alloc_intermediate :: "RadixTree \<Rightarrow> byte list \<Rightarrow> error + (Gptr \<times> RadixTree)" where
  "alloc_intermediate t key =
     (case alloc_retry (alloc_retry_cnt t) 0 t of
        (intermediate_node_ptr, t1) \<Rightarrow>
          if intermediate_node_ptr = 0 \<and> \<not> NDEBUG t then Inl Assert_alloc
          else (case toLocal t1 intermediate_node_ptr of
                  None \<Rightarrow> Inl (if NDEBUG t then Null_pointer else Assert_local)
                | Some n \<Rightarrow>
                    if length (n_key n) < length key then Inl Node_key_out_of_range
                    else Inr (intermediate_node_ptr,
                           t1\<lparr>mem := (mem t1)(intermediate_node_ptr \<mapsto>
                                 n\<lparr>n_key := key @ drop (length key) (n_key n),
                                   n_child := (\<lambda>_. 0)\<rparr>)\<rparr>)))"

text \<open>
  The loop \<open>for (;;) { seen_tq = casTagGptr(tp, tq, TagGptr(v, tq.tag() + 1)); if (seen_tq
  == tq) return ...; tq = seen_tq; }\<close> of \<open>put\<close>, \<open>destroy\<close>, \<open>putC\<close> and \<open>destroyC\<close>,
  on the value slot of the node at \<open>a\<close>. It returns the tagged value it replaced, the one
  it stored, and the memory.
\<close>

function cas_value_loop ::
  "RadixTree \<Rightarrow> Gptr \<Rightarrow> TagGptr \<Rightarrow> Gptr \<Rightarrow> error + (TagGptr \<times> TagGptr \<times> RadixTree)" where
  "cas_value_loop t a tq v =
     (case casTagGptr t a tq \<lparr>gptr = v, tag = tag tq + 1\<rparr> of
        Inl e \<Rightarrow> Inl e
      | Inr (seen_tq, t') \<Rightarrow>
          if seen_tq = tq then Inr (tq, \<lparr>gptr = v, tag = tag tq + 1\<rparr>, t')
          else cas_value_loop t' a seen_tq v)"
  by pat_completeness auto
termination
  by (relation "measure (\<lambda>(t, a, tq, v). if map_option n_value (mem t a) = Some tq then 0 else 1)")
     (auto simp: casTagGptr_def split: option.splits if_splits)

text \<open>
  How the inner loop \<open>while (q != 0)\<close> of \<open>put\<close> is left: by \<open>return\<close>, or towards
  case 1 and case 2 with the locals \<open>p\<close>, \<open>q\<close>, \<open>prefix_size\<close> and \<open>existing\<close>.
\<close>

datatype put_exit = Return TagGptr | Continue slot Gptr nat byte

partial_function (option) put_descend ::
  "RadixTree \<Rightarrow> byte list \<Rightarrow> Gptr \<Rightarrow> bool \<Rightarrow> Gptr \<Rightarrow> Gptr \<Rightarrow> slot \<Rightarrow> Gptr \<Rightarrow> nat \<Rightarrow> byte
    \<Rightarrow> (error + put_exit \<times> RadixTree) option" where
  "put_descend t key val update new_leaf_ptr intermediate_node_ptr p q prefix_size existing =
     (if q = 0 then Some (Inr (Continue p q prefix_size existing, t))
      else
        case toLocal t q of
          None \<Rightarrow> Some (Inl Assert_local)
        | Some n \<Rightarrow>
            (case first_mismatch key (n_key n) (min (length key) (n_prefix_size n)) 0 of
               Inl e \<Rightarrow> Some (Inl e)
             | Inr i \<Rightarrow>
                 if i < n_prefix_size n then
                   (if length (n_key n) \<le> i then Some (Inl Node_key_out_of_range)
                    else Some (Inr (Continue p q i (n_key n ! i), t)))
                 else if \<not> update \<and> i \<noteq> n_prefix_size n then Some (Inl Assert_prefix)
                 else if length key = i then
                   (let t1 = (if intermediate_node_ptr \<noteq> 0 then Free t intermediate_node_ptr else t);
                        t2 = (if new_leaf_ptr \<noteq> 0 then Free t1 new_leaf_ptr else t1);
                        tq = n_value n
                    in if update then
                         (case cas_value_loop t2 q tq val of
                            Inl e \<Rightarrow> Some (Inl e)
                          | Inr (old, new, t3) \<Rightarrow> Some (Inr (Return old, t3)))
                       else if IsValid tq then Some (Inr (Return tq, t2))
                       else
                         (case casTagGptr t2 q tq \<lparr>gptr = val, tag = tag tq + 1\<rparr> of
                            Inl e \<Rightarrow> Some (Inl e)
                          | Inr (seen_tq, t3) \<Rightarrow>
                              if seen_tq = tq then Some (Inr (Return tq, t3))
                              else Some (Inr (Continue p q prefix_size existing, t3))))
                 else if length key \<le> i then Some (Inl Key_index_out_of_range)
                 else put_descend t key val update new_leaf_ptr intermediate_node_ptr
                        (Some (q, key ! i)) (n_child n (key ! i)) prefix_size existing))"

text \<open>
  Case 2 of \<open>put\<close> writes the intermediate node: with the value when the key ends at the
  split position, with the new leaf as a child otherwise; the old subtree \<open>q\<close> goes
  under the byte \<open>existing\<close>.
\<close>

definition link_value :: "Gptr \<Rightarrow> nat \<Rightarrow> byte \<Rightarrow> Gptr \<Rightarrow> Node \<Rightarrow> Node" where
  "link_value val prefix_size existing q n =
     n\<lparr>n_value := \<lparr>gptr = val, tag = 0\<rparr>,
       n_prefix_size := prefix_size,
       n_child := (n_child n)(existing := q)\<rparr>"

definition link_leaf :: "byte \<Rightarrow> Gptr \<Rightarrow> nat \<Rightarrow> byte \<Rightarrow> Gptr \<Rightarrow> Node \<Rightarrow> Node" where
  "link_leaf b new_leaf_ptr prefix_size existing q n =
     n\<lparr>n_prefix_size := prefix_size,
       n_child := ((n_child n)(b := new_leaf_ptr))(existing := q)\<rparr>"

text \<open>The outer loop \<open>for (;;)\<close> of \<open>put\<close>.\<close>

partial_function (option) put_loop ::
  "RadixTree \<Rightarrow> byte list \<Rightarrow> Gptr \<Rightarrow> bool \<Rightarrow> Gptr \<Rightarrow> Gptr \<Rightarrow> slot \<Rightarrow> Gptr \<Rightarrow> nat \<Rightarrow> byte
    \<Rightarrow> (error + TagGptr \<times> RadixTree) option" where
  "put_loop t key val update new_leaf_ptr intermediate_node_ptr p0 q0 prefix_size0 existing0 =
     (case put_descend t key val update new_leaf_ptr intermediate_node_ptr p0 q0 prefix_size0 existing0 of
        None \<Rightarrow> None
      | Some (Inl e) \<Rightarrow> Some (Inl e)
      | Some (Inr (Return tq, t1)) \<Rightarrow> Some (Inr (tq, t1))
      | Some (Inr (Continue p q prefix_size existing, t1)) \<Rightarrow>
          if q = 0 then
            (case (if new_leaf_ptr = 0 then alloc_new_leaf t1 key val else Inr (new_leaf_ptr, t1)) of
               Inl e \<Rightarrow> Some (Inl e)
             | Inr (new_leaf_ptr', t2) \<Rightarrow>
                 (case cas64 t2 p q new_leaf_ptr' of
                    Inl e \<Rightarrow> Some (Inl e)
                  | Inr (seen_q, t3) \<Rightarrow>
                      if seen_q = q then
                        Some (Inr (TagGptr0,
                          if intermediate_node_ptr \<noteq> 0 then Free t3 intermediate_node_ptr else t3))
                      else put_loop t3 key val update new_leaf_ptr' intermediate_node_ptr
                             p seen_q prefix_size existing))
          else
            (case (if intermediate_node_ptr = 0 then alloc_intermediate t1 key
                   else Inr (intermediate_node_ptr, t1)) of
               Inl e \<Rightarrow> Some (Inl e)
             | Inr (intermediate_node_ptr', t2) \<Rightarrow>
                 if prefix_size = length key then
                   (case modify_node t2 intermediate_node_ptr' (link_value val prefix_size existing q) of
                      Inl e \<Rightarrow> Some (Inl e)
                    | Inr t3 \<Rightarrow>
                        (case cas64 t3 p q intermediate_node_ptr' of
                           Inl e \<Rightarrow> Some (Inl e)
                         | Inr (seen_q, t4) \<Rightarrow>
                             if seen_q = q then
                               Some (Inr (TagGptr0, if new_leaf_ptr \<noteq> 0 then Free t4 new_leaf_ptr else t4))
                             else put_loop t4 key val update new_leaf_ptr intermediate_node_ptr'
                                    p seen_q prefix_size existing))
                 else
                   (case (if new_leaf_ptr = 0 then alloc_new_leaf t2 key val else Inr (new_leaf_ptr, t2)) of
                      Inl e \<Rightarrow> Some (Inl e)
                    | Inr (new_leaf_ptr', t3) \<Rightarrow>
                        if length key \<le> prefix_size then Some (Inl Key_index_out_of_range)
                        else
                          (case modify_node t3 intermediate_node_ptr'
                                  (link_leaf (key ! prefix_size) new_leaf_ptr' prefix_size existing q) of
                             Inl e \<Rightarrow> Some (Inl e)
                           | Inr t4 \<Rightarrow>
                               (case cas64 t4 p q intermediate_node_ptr' of
                                  Inl e \<Rightarrow> Some (Inl e)
                                | Inr (seen_q, t5) \<Rightarrow>
                                    if seen_q = q then Some (Inr (TagGptr0, t5))
                                    else put_loop t5 key val update new_leaf_ptr' intermediate_node_ptr'
                                           p seen_q prefix_size existing)))))"

definition put :: "RadixTree \<Rightarrow> byte list \<Rightarrow> Gptr \<Rightarrow> bool \<Rightarrow> (error + TagGptr \<times> RadixTree) option" where
  "put t key val update =
     (if 0 < length key \<and> length key \<le> MAX_KEY_LEN t
      then put_loop t key val update 0 0 None (root t) 0 0
      else Some (Inl Assert_key_size))"

section \<open>get and destroy\<close>

partial_function (option) get_loop :: "RadixTree \<Rightarrow> byte list \<Rightarrow> Gptr \<Rightarrow> (error + TagGptr) option" where
  "get_loop t key q =
     (if q = 0 then Some (Inr TagGptr0)
      else
        case toLocal t q of
          None \<Rightarrow> Some (Inl Assert_local)
        | Some n \<Rightarrow>
            (case fam_memcmp key (n_key n) (min (n_prefix_size n) (length key)) of
               Inl e \<Rightarrow> Some (Inl e)
             | Inr result \<Rightarrow>
                 if result \<noteq> 0 then Some (Inr TagGptr0)
                 else if n_prefix_size n = length key then Some (Inr (n_value n))
                 else if length key \<le> n_prefix_size n then Some (Inl Key_index_out_of_range)
                 else get_loop t key (n_child n (key ! n_prefix_size n))))"

definition get :: "RadixTree \<Rightarrow> byte list \<Rightarrow> (error + TagGptr) option" where
  "get t key =
     (if 0 < length key \<and> length key \<le> MAX_KEY_LEN t
      then get_loop t key (root t)
      else Some (Inl Assert_key_size))"

partial_function (option) destroy_loop ::
  "RadixTree \<Rightarrow> byte list \<Rightarrow> Gptr \<Rightarrow> (error + TagGptr \<times> RadixTree) option" where
  "destroy_loop t key q =
     (if q = 0 then Some (Inr (TagGptr0, t))
      else
        case toLocal t q of
          None \<Rightarrow> Some (Inl Assert_local)
        | Some n \<Rightarrow>
            (case fam_memcmp key (n_key n) (min (n_prefix_size n) (length key)) of
               Inl e \<Rightarrow> Some (Inl e)
             | Inr result \<Rightarrow>
                 if result \<noteq> 0 then Some (Inr (TagGptr0, t))
                 else if n_prefix_size n = length key then
                   (case cas_value_loop t q (n_value n) 0 of
                      Inl e \<Rightarrow> Some (Inl e)
                    | Inr (old, new, t') \<Rightarrow> Some (Inr (old, t')))
                 else if length key \<le> n_prefix_size n then Some (Inl Key_index_out_of_range)
                 else destroy_loop t key (n_child n (key ! n_prefix_size n))))"

definition destroy :: "RadixTree \<Rightarrow> byte list \<Rightarrow> (error + TagGptr \<times> RadixTree) option" where
  "destroy t key =
     (if 0 < length key \<and> length key \<le> MAX_KEY_LEN t
      then destroy_loop t key (root t)
      else Some (Inl Assert_key_size))"

section \<open>The range scan\<close>

text \<open>
  Modelled from the spec: \<open>struct Iter\<close> is declared in the missing header; section 4.5
  lists its fields. \<open>it_path\<close> is the stack, its top first; \<open>it_next_pos\<close> and the
  second component of a frame are \<open>uint64_t\<close>.
\<close>

record Iter =
  it_node :: Gptr
  it_next_pos :: "64 word"
  it_path :: "(Gptr \<times> 64 word) list"
  it_begin_key :: "byte list"
  it_begin_key_inclusive :: bool
  it_begin_key_open :: bool
  it_end_key :: "byte list"
  it_end_key_inclusive :: bool
  it_end_key_open :: bool
  it_key :: "byte list"
  it_value :: TagGptr

text \<open>
  \<open>(uint64_t)key[i]\<close> for \<open>char const *key\<close>: plain \<open>char\<close> is signed on the
  x86-64 ABI the library is built for, so the conversion extends the sign.
\<close>

definition char_to_uint64 :: "byte \<Rightarrow> 64 word" where
  "char_to_uint64 c = scast c"

text \<open>\<open>std::string((char *)&n->key, n->prefix_size)\<close>\<close>

definition node_key :: "Node \<Rightarrow> error + byte list" where
  "node_key n =
     (if length (n_key n) < n_prefix_size n then Inl Node_key_out_of_range
      else Inr (take (n_prefix_size n) (n_key n)))"

text \<open>
  \<open>while (iter.next_pos == 257) { if (iter.path.empty()) return false; ... }\<close>: the
  flag tells that the path was empty, where \<open>next_value\<close> returns false.
\<close>

function go_up :: "Iter \<Rightarrow> bool \<times> Iter" where
  "go_up iter =
     (if it_next_pos iter = 257 then
        (case it_path iter of
           [] \<Rightarrow> (True, iter)
         | parent # rest \<Rightarrow>
             go_up (iter\<lparr>it_path := rest, it_node := fst parent, it_next_pos := snd parent + 1 + 1\<rparr>))
      else (False, iter))"
  by pat_completeness auto
termination
  by (relation "measure (\<lambda>iter. length (it_path iter))") auto

text \<open>
  "special case: check the value ptr": at \<open>next_pos == 0\<close> the position advances and a
  valid value is yielded (the flag).
\<close>

definition visit_value :: "Node \<Rightarrow> Iter \<Rightarrow> error + bool \<times> Iter" where
  "visit_value n iter =
     (if it_next_pos iter = 0 then
        (if IsValid (n_value n) then
           (case node_key n of
              Inl e \<Rightarrow> Inl e
            | Inr k \<Rightarrow> Inr (True, iter\<lparr>it_next_pos := it_next_pos iter + 1, it_key := k, it_value := n_value n\<rparr>))
         else Inr (False, iter\<lparr>it_next_pos := it_next_pos iter + 1\<rparr>))
      else Inr (False, iter))"

text \<open>
  \<open>for (; iter.next_pos <= bound; iter.next_pos++) { q = n->child[iter.next_pos - 1]; if
  (q) { push; iter.node = q; iter.next_pos = 0; break; } }\<close>, the array \<open>child\<close> having
  256 entries.
\<close>

function scan_children :: "Node \<Rightarrow> 64 word \<Rightarrow> Iter \<Rightarrow> error + Iter" where
  "scan_children n bound iter =
     (if it_next_pos iter \<le> bound then
        (if 256 \<le> unat (it_next_pos iter - 1) then Inl Child_index_out_of_range
         else if n_child n (ucast (it_next_pos iter - 1)) \<noteq> 0 then
           Inr (iter\<lparr>it_path := (it_node iter, it_next_pos iter - 1) # it_path iter,
                     it_node := n_child n (ucast (it_next_pos iter - 1)),
                     it_next_pos := 0\<rparr>)
         else scan_children n bound (iter\<lparr>it_next_pos := it_next_pos iter + 1\<rparr>))
      else Inr iter)"
  by pat_completeness auto
termination
proof (relation "measure (\<lambda>(n, bound, iter). 257 - unat (it_next_pos iter - 1))", goal_cases)
  case 1
  show ?case by simp
next
  case (2 n bound iter)
  then have lt: "unat (it_next_pos iter - 1) < 256" by simp
  have step: "unat (w + 1) = unat w + 1" if "unat w < 256" for w :: "64 word"
    using that by (simp add: unat_word_ariths)
  have "unat (it_next_pos iter) = unat (it_next_pos iter - 1) + 1"
    using step [OF lt] by simp
  with lt show ?case by simp
qed

partial_function (option) next_value :: "RadixTree \<Rightarrow> Iter \<Rightarrow> (error + bool \<times> Iter) option" where
  "next_value t iter0 =
     (if it_node iter0 = 0 then Some (Inr (False, iter0))
      else
        case go_up iter0 of
          (path_empty, iter) \<Rightarrow>
            if path_empty then Some (Inr (False, iter))
            else
            (case toLocal t (it_node iter) of
               None \<Rightarrow> Some (Inl Assert_local)
             | Some n \<Rightarrow>
                 (case (if it_end_key_open iter then Inr 1
                        else fam_memcmp (it_end_key iter) (n_key n)
                               (min (n_prefix_size n) (length (it_end_key iter)))) of
                    Inl e \<Rightarrow> Some (Inl e)
                  | Inr result \<Rightarrow>
                      if result < 0 then Some (Inr (False, iter))
                      else if 0 < result then
                        (case visit_value n iter of
                           Inl e \<Rightarrow> Some (Inl e)
                         | Inr (found, iter1) \<Rightarrow>
                             if found then Some (Inr (True, iter1))
                             else
                             (case scan_children n 256 iter1 of
                                Inl e \<Rightarrow> Some (Inl e)
                              | Inr iter2 \<Rightarrow> next_value t iter2))
                      else if n_prefix_size n = length (it_end_key iter) then
                        (if it_end_key_inclusive iter then
                           (if it_next_pos iter = 0 \<and> IsValid (n_value n) then
                              (case node_key n of
                                 Inl e \<Rightarrow> Some (Inl e)
                               | Inr k \<Rightarrow>
                                   Some (Inr (True, iter\<lparr>it_node := 0, it_key := k, it_value := n_value n\<rparr>)))
                            else Some (Inr (False, iter\<lparr>it_node := 0\<rparr>)))
                         else Some (Inr (False, iter\<lparr>it_node := 0\<rparr>)))
                      else
                        (case visit_value n iter of
                           Inl e \<Rightarrow> Some (Inl e)
                         | Inr (found, iter1) \<Rightarrow>
                             if found then Some (Inr (True, iter1))
                             else if length (it_end_key iter1) \<le> n_prefix_size n
                             then Some (Inl Key_index_out_of_range)
                             else
                               (case scan_children n
                                       (char_to_uint64 (it_end_key iter1 ! n_prefix_size n) + 1) iter1 of
                                  Inl e \<Rightarrow> Some (Inl e)
                                | Inr iter2 \<Rightarrow>
                                    if char_to_uint64 (it_end_key iter1 ! n_prefix_size n) + 1
                                         < it_next_pos iter2
                                    then Some (Inr (False, iter2\<lparr>it_node := 0\<rparr>))
                                    else next_value t iter2)))))"

partial_function (option) lower_bound_loop :: "RadixTree \<Rightarrow> Iter \<Rightarrow> (error + bool \<times> Iter) option" where
  "lower_bound_loop t iter =
     (if it_node iter = 0 then Some (Inr (False, iter\<lparr>it_node := 0\<rparr>))
      else
        case toLocal t (it_node iter) of
          None \<Rightarrow> Some (Inl Assert_local)
        | Some n \<Rightarrow>
            (case (if it_begin_key_open iter then Inr (- 1)
                   else fam_memcmp (it_begin_key iter) (n_key n)
                          (min (n_prefix_size n) (length (it_begin_key iter)))) of
               Inl e \<Rightarrow> Some (Inl e)
             | Inr result \<Rightarrow>
                 if 0 < result then next_value t (iter\<lparr>it_next_pos := 257\<rparr>)
                 else if result < 0 then next_value t iter
                 else if n_prefix_size n = length (it_begin_key iter) then
                   (if it_begin_key_inclusive iter then next_value t iter
                    else next_value t (iter\<lparr>it_next_pos := 1\<rparr>))
                 else if length (it_begin_key iter) \<le> n_prefix_size n
                 then Some (Inl Key_index_out_of_range)
                 else if n_child n (it_begin_key iter ! n_prefix_size n) \<noteq> 0 then
                   lower_bound_loop t
                     (iter\<lparr>it_path := (it_node iter, ucast (it_begin_key iter ! n_prefix_size n)) # it_path iter,
                           it_node := n_child n (it_begin_key iter ! n_prefix_size n)\<rparr>)
                 else next_value t (iter\<lparr>it_next_pos := ucast (it_begin_key iter ! n_prefix_size n) + 1\<rparr>)))"

definition lower_bound :: "RadixTree \<Rightarrow> Iter \<Rightarrow> (error + bool \<times> Iter) option" where
  "lower_bound t iter =
     (if it_key iter \<noteq> [] then Some (Inl Assert_iter_key)
      else lower_bound_loop t (iter\<lparr>it_node := root t, it_next_pos := 0, it_value := TagGptr0\<rparr>))"

text \<open>
  \<open>iter.begin_key < iter.end_key\<close> on \<open>std::string\<close>: the lexicographic order on
  unsigned bytes.
\<close>

fun string_less :: "byte list \<Rightarrow> byte list \<Rightarrow> bool" where
  "string_less [] [] = False"
| "string_less [] (y # ys) = True"
| "string_less (x # xs) [] = False"
| "string_less (x # xs) (y # ys) = (x < y \<or> (x = y \<and> string_less xs ys))"

text \<open>
  The first part of \<open>scan\<close>: the iterator is reset and the boundaries are stored. The
  assignments are in the order of the source: \<open>begin_key_open\<close> is computed before
  \<open>end_key_inclusive\<close> is assigned.
\<close>

definition scan_init :: "RadixTree \<Rightarrow> Iter \<Rightarrow> byte list \<Rightarrow> bool \<Rightarrow> byte list \<Rightarrow> bool \<Rightarrow> Iter" where
  "scan_init t iter begin_key begin_key_inclusive end_key end_key_inclusive =
     (let iter1 = iter\<lparr>it_node := 0, it_next_pos := 0, it_key := [], it_value := TagGptr0, it_path := []\<rparr>;
          iter2 = iter1\<lparr>it_begin_key := begin_key, it_begin_key_inclusive := begin_key_inclusive\<rparr>;
          iter3 = iter2\<lparr>it_begin_key_open :=
                    (it_begin_key iter2 = OPEN_BOUNDARY_KEY t \<and> it_end_key_inclusive iter2 = False)\<rparr>;
          iter4 = iter3\<lparr>it_end_key := end_key, it_end_key_inclusive := end_key_inclusive\<rparr>
      in iter4\<lparr>it_end_key_open :=
                 (it_end_key iter4 = OPEN_BOUNDARY_KEY t \<and> it_end_key_inclusive iter4 = False)\<rparr>)"

text \<open>
  \<open>scan\<close> and \<open>get_next\<close>: the result \<open>Some (key, val)\<close> is the return code 0 with the
  outputs \<open>key\<close>, \<open>key_size\<close> and \<open>val\<close>; \<open>None\<close> is the return code -1.
\<close>

definition scan ::
  "RadixTree \<Rightarrow> Iter \<Rightarrow> byte list \<Rightarrow> bool \<Rightarrow> byte list \<Rightarrow> bool
    \<Rightarrow> (error + (byte list \<times> TagGptr) option \<times> Iter) option" where
  "scan t iter0 begin_key begin_key_inclusive end_key end_key_inclusive =
     (if \<not> (0 < length begin_key \<and> length begin_key \<le> MAX_KEY_LEN t) then Some (Inl Assert_key_size)
      else if \<not> (0 < length end_key \<and> length end_key \<le> MAX_KEY_LEN t) then Some (Inl Assert_key_size)
      else
        (let iter = scan_init t iter0 begin_key begin_key_inclusive end_key end_key_inclusive in
         if it_begin_key iter = it_end_key iter \<and> begin_key_inclusive \<and> end_key_inclusive then
           (case get t begin_key of
              None \<Rightarrow> None
            | Some (Inl e) \<Rightarrow> Some (Inl e)
            | Some (Inr v) \<Rightarrow> Some (Inr (if IsValid v then Some (begin_key, v) else None, iter)))
         else if (it_begin_key_open iter \<or> it_end_key_open iter)
                 \<or> string_less (it_begin_key iter) (it_end_key iter) then
           (case lower_bound t iter of
              None \<Rightarrow> None
            | Some (Inl e) \<Rightarrow> Some (Inl e)
            | Some (Inr (found, iter')) \<Rightarrow>
                Some (Inr (if found then Some (it_key iter', it_value iter') else None, iter')))
         else Some (Inr (None, iter))))"

definition get_next :: "RadixTree \<Rightarrow> Iter \<Rightarrow> (error + (byte list \<times> TagGptr) option \<times> Iter) option" where
  "get_next t iter =
     (case next_value t iter of
        None \<Rightarrow> None
      | Some (Inl e) \<Rightarrow> Some (Inl e)
      | Some (Inr (found, iter')) \<Rightarrow>
          Some (Inr (if found then Some (it_key iter', it_value iter') else None, iter')))"

section \<open>The constructor\<close>

text \<open>
  \<open>RadixTree::RadixTree\<close>: with \<open>Root == 0\<close> a root node is allocated, its
  \<open>prefix_size\<close>, children and value are zeroed; a non-zero \<open>Root\<close> is adopted.
\<close>

definition RadixTree_new :: "RadixTree \<Rightarrow> error + RadixTree" where
  "RadixTree_new t =
     (if root t = 0 then
        (case Alloc t of
           (r, t1) \<Rightarrow>
             if r = 0 \<and> \<not> NDEBUG t then Inl Assert_alloc
             else (case toLocal t1 r of
                     None \<Rightarrow> Inl (if NDEBUG t then Null_pointer else Assert_local)
                   | Some n \<Rightarrow>
                       Inr (t1\<lparr>root := r,
                               mem := (mem t1)(r \<mapsto> n\<lparr>n_prefix_size := 0, n_child := (\<lambda>_. 0),
                                                       n_value := TagGptr0\<rparr>)\<rparr>)))
      else Inr t)"

section \<open>The variants for consistent DRAM caching\<close>

text \<open>
  \<open>putC(key, key_size, value, old_value)\<close> returns the pair of the node's global
  pointer and the new tagged value, and \<open>old_value\<close> by reference: the result of the
  model is the triple \<open>(pointer, new value, old value)\<close>.
\<close>

datatype putC_exit = ReturnC Gptr TagGptr TagGptr | ContinueC slot Gptr nat byte

partial_function (option) putC_descend ::
  "RadixTree \<Rightarrow> byte list \<Rightarrow> Gptr \<Rightarrow> Gptr \<Rightarrow> Gptr \<Rightarrow> slot \<Rightarrow> Gptr \<Rightarrow> nat \<Rightarrow> byte
    \<Rightarrow> (error + putC_exit \<times> RadixTree) option" where
  "putC_descend t key val new_leaf_ptr intermediate_node_ptr p q prefix_size existing =
     (if q = 0 then Some (Inr (ContinueC p q prefix_size existing, t))
      else
        case toLocal t q of
          None \<Rightarrow> Some (Inl Assert_local)
        | Some n \<Rightarrow>
            (case first_mismatch key (n_key n) (min (length key) (n_prefix_size n)) 0 of
               Inl e \<Rightarrow> Some (Inl e)
             | Inr i \<Rightarrow>
                 if i < n_prefix_size n then
                   (if length (n_key n) \<le> i then Some (Inl Node_key_out_of_range)
                    else Some (Inr (ContinueC p q i (n_key n ! i), t)))
                 else if length key = i then
                   (let t1 = (if intermediate_node_ptr \<noteq> 0 then Free t intermediate_node_ptr else t);
                        t2 = (if new_leaf_ptr \<noteq> 0 then Free t1 new_leaf_ptr else t1)
                    in case cas_value_loop t2 q (n_value n) val of
                         Inl e \<Rightarrow> Some (Inl e)
                       | Inr (old, new, t3) \<Rightarrow> Some (Inr (ReturnC q new old, t3)))
                 else if length key \<le> i then Some (Inl Key_index_out_of_range)
                 else putC_descend t key val new_leaf_ptr intermediate_node_ptr
                        (Some (q, key ! i)) (n_child n (key ! i)) prefix_size existing))"

partial_function (option) putC_loop ::
  "RadixTree \<Rightarrow> byte list \<Rightarrow> Gptr \<Rightarrow> Gptr \<Rightarrow> Gptr \<Rightarrow> slot \<Rightarrow> Gptr \<Rightarrow> nat \<Rightarrow> byte
    \<Rightarrow> (error + (Gptr \<times> TagGptr \<times> TagGptr) \<times> RadixTree) option" where
  "putC_loop t key val new_leaf_ptr intermediate_node_ptr p0 q0 prefix_size0 existing0 =
     (case putC_descend t key val new_leaf_ptr intermediate_node_ptr p0 q0 prefix_size0 existing0 of
        None \<Rightarrow> None
      | Some (Inl e) \<Rightarrow> Some (Inl e)
      | Some (Inr (ReturnC node new old, t1)) \<Rightarrow> Some (Inr ((node, new, old), t1))
      | Some (Inr (ContinueC p q prefix_size existing, t1)) \<Rightarrow>
          if q = 0 then
            (case (if new_leaf_ptr = 0 then alloc_new_leaf t1 key val else Inr (new_leaf_ptr, t1)) of
               Inl e \<Rightarrow> Some (Inl e)
             | Inr (new_leaf_ptr', t2) \<Rightarrow>
                 (case cas64 t2 p q new_leaf_ptr' of
                    Inl e \<Rightarrow> Some (Inl e)
                  | Inr (seen_q, t3) \<Rightarrow>
                      if seen_q = q then
                        Some (Inr ((new_leaf_ptr', \<lparr>gptr = val, tag = 0\<rparr>, TagGptr0),
                          if intermediate_node_ptr \<noteq> 0 then Free t3 intermediate_node_ptr else t3))
                      else putC_loop t3 key val new_leaf_ptr' intermediate_node_ptr
                             p seen_q prefix_size existing))
          else
            (case (if intermediate_node_ptr = 0 then alloc_intermediate t1 key
                   else Inr (intermediate_node_ptr, t1)) of
               Inl e \<Rightarrow> Some (Inl e)
             | Inr (intermediate_node_ptr', t2) \<Rightarrow>
                 if prefix_size = length key then
                   (case modify_node t2 intermediate_node_ptr' (link_value val prefix_size existing q) of
                      Inl e \<Rightarrow> Some (Inl e)
                    | Inr t3 \<Rightarrow>
                        (case cas64 t3 p q intermediate_node_ptr' of
                           Inl e \<Rightarrow> Some (Inl e)
                         | Inr (seen_q, t4) \<Rightarrow>
                             if seen_q = q then
                               Some (Inr ((intermediate_node_ptr', \<lparr>gptr = val, tag = 0\<rparr>, TagGptr0),
                                 if new_leaf_ptr \<noteq> 0 then Free t4 new_leaf_ptr else t4))
                             else putC_loop t4 key val new_leaf_ptr intermediate_node_ptr'
                                    p seen_q prefix_size existing))
                 else
                   (case (if new_leaf_ptr = 0 then alloc_new_leaf t2 key val else Inr (new_leaf_ptr, t2)) of
                      Inl e \<Rightarrow> Some (Inl e)
                    | Inr (new_leaf_ptr', t3) \<Rightarrow>
                        if length key \<le> prefix_size then Some (Inl Key_index_out_of_range)
                        else
                          (case modify_node t3 intermediate_node_ptr'
                                  (link_leaf (key ! prefix_size) new_leaf_ptr' prefix_size existing q) of
                             Inl e \<Rightarrow> Some (Inl e)
                           | Inr t4 \<Rightarrow>
                               (case cas64 t4 p q intermediate_node_ptr' of
                                  Inl e \<Rightarrow> Some (Inl e)
                                | Inr (seen_q, t5) \<Rightarrow>
                                    if seen_q = q then
                                      Some (Inr ((new_leaf_ptr', \<lparr>gptr = val, tag = 0\<rparr>, TagGptr0), t5))
                                    else putC_loop t5 key val new_leaf_ptr' intermediate_node_ptr'
                                           p seen_q prefix_size existing)))))"

definition putC ::
  "RadixTree \<Rightarrow> byte list \<Rightarrow> Gptr \<Rightarrow> (error + (Gptr \<times> TagGptr \<times> TagGptr) \<times> RadixTree) option" where
  "putC t key val =
     (if 0 < length key \<and> length key \<le> MAX_KEY_LEN t
      then putC_loop t key val 0 0 None (root t) 0 0
      else Some (Inl Assert_key_size))"

text \<open>
  \<open>putC(key_ptr, value, old_value)\<close> on the node at \<open>key_ptr\<close>: the result is the pair
  \<open>(new value, old value)\<close> and the memory.
\<close>

definition putC_ptr :: "RadixTree \<Rightarrow> Gptr \<Rightarrow> Gptr \<Rightarrow> error + (TagGptr \<times> TagGptr) \<times> RadixTree" where
  "putC_ptr t key_ptr val =
     (if key_ptr = 0 then Inl Assert_key_ptr
      else case toLocal t key_ptr of
             None \<Rightarrow> Inl Assert_local
           | Some n \<Rightarrow>
               (case cas_value_loop t key_ptr (n_value n) val of
                  Inl e \<Rightarrow> Inl e
                | Inr (old, new, t') \<Rightarrow> Inr ((new, old), t')))"

partial_function (option) getC_loop ::
  "RadixTree \<Rightarrow> byte list \<Rightarrow> Gptr \<Rightarrow> (error + Gptr \<times> TagGptr) option" where
  "getC_loop t key q =
     (if q = 0 then Some (Inr (0, TagGptr0))
      else
        case toLocal t q of
          None \<Rightarrow> Some (Inl Assert_local)
        | Some n \<Rightarrow>
            (case fam_memcmp key (n_key n) (min (n_prefix_size n) (length key)) of
               Inl e \<Rightarrow> Some (Inl e)
             | Inr result \<Rightarrow>
                 if result \<noteq> 0 then Some (Inr (0, TagGptr0))
                 else if n_prefix_size n = length key then Some (Inr (q, n_value n))
                 else if length key \<le> n_prefix_size n then Some (Inl Key_index_out_of_range)
                 else getC_loop t key (n_child n (key ! n_prefix_size n))))"

definition getC :: "RadixTree \<Rightarrow> byte list \<Rightarrow> (error + Gptr \<times> TagGptr) option" where
  "getC t key =
     (if 0 < length key \<and> length key \<le> MAX_KEY_LEN t
      then getC_loop t key (root t)
      else Some (Inl Assert_key_size))"

definition getC_ptr :: "RadixTree \<Rightarrow> Gptr \<Rightarrow> error + TagGptr" where
  "getC_ptr t key_ptr =
     (if key_ptr = 0 then Inl Assert_key_ptr
      else case toLocal t key_ptr of
             None \<Rightarrow> Inl Assert_local
           | Some n \<Rightarrow> Inr (n_value n))"

text \<open>
  \<open>destroyC(key, key_size, old_value)\<close>: the triple \<open>(pointer, new value, old value)\<close>;
  where the key is not found the source returns the null pair and leaves \<open>old_value\<close>
  as the caller passed it (the argument \<open>old_value0\<close>).
\<close>

partial_function (option) destroyC_loop ::
  "RadixTree \<Rightarrow> byte list \<Rightarrow> TagGptr \<Rightarrow> Gptr
    \<Rightarrow> (error + (Gptr \<times> TagGptr \<times> TagGptr) \<times> RadixTree) option" where
  "destroyC_loop t key old_value0 q =
     (if q = 0 then Some (Inr ((0, TagGptr0, old_value0), t))
      else
        case toLocal t q of
          None \<Rightarrow> Some (Inl Assert_local)
        | Some n \<Rightarrow>
            (case fam_memcmp key (n_key n) (min (n_prefix_size n) (length key)) of
               Inl e \<Rightarrow> Some (Inl e)
             | Inr result \<Rightarrow>
                 if result \<noteq> 0 then Some (Inr ((0, TagGptr0, old_value0), t))
                 else if n_prefix_size n = length key then
                   (case cas_value_loop t q (n_value n) 0 of
                      Inl e \<Rightarrow> Some (Inl e)
                    | Inr (old, new, t') \<Rightarrow> Some (Inr ((q, new, old), t')))
                 else if length key \<le> n_prefix_size n then Some (Inl Key_index_out_of_range)
                 else destroyC_loop t key old_value0 (n_child n (key ! n_prefix_size n))))"

definition destroyC ::
  "RadixTree \<Rightarrow> byte list \<Rightarrow> TagGptr \<Rightarrow> (error + (Gptr \<times> TagGptr \<times> TagGptr) \<times> RadixTree) option" where
  "destroyC t key old_value0 =
     (if 0 < length key \<and> length key \<le> MAX_KEY_LEN t
      then destroyC_loop t key old_value0 (root t)
      else Some (Inl Assert_key_size))"

definition destroyC_ptr :: "RadixTree \<Rightarrow> Gptr \<Rightarrow> error + (TagGptr \<times> TagGptr) \<times> RadixTree" where
  "destroyC_ptr t key_ptr =
     (if key_ptr = 0 then Inl Assert_key_ptr
      else case toLocal t key_ptr of
             None \<Rightarrow> Inl Assert_local
           | Some n \<Rightarrow>
               (case cas_value_loop t key_ptr (n_value n) 0 of
                  Inl e \<Rightarrow> Inl e
                | Inr (old, new, t') \<Rightarrow> Inr ((new, old), t')))"

section \<open>Well-formed trees and a heap that can serve a put\<close>

text \<open>
  The nodes of a well-formed tree are the global pointers of a set \<open>N\<close>: the root is
  one of them and has the empty prefix, every node is mapped, its prefix fits the key
  buffer, and each non-null child is a node with a longer prefix (of invariant 2 of the
  spec, section 3, the part on the prefix lengths).
\<close>

definition wf_tree :: "Gptr set \<Rightarrow> RadixTree \<Rightarrow> bool" where
  "wf_tree N t =
     (root t \<in> N \<and> 0 \<notin> N
      \<and> (\<exists>r. mem t (root t) = Some r \<and> n_prefix_size r = 0)
      \<and> (\<forall>a \<in> N. \<exists>n. mem t a = Some n \<and> n_prefix_size n \<le> length (n_key n)
            \<and> (\<forall>b. n_child n b \<noteq> 0 \<longrightarrow>
                  n_child n b \<in> N
                  \<and> (\<exists>c. mem t (n_child n b) = Some c \<and> n_prefix_size n < n_prefix_size c))))"

text \<open>
  For the put and the get of one key less is needed: the nodes of \<open>N\<close> are those on the
  way of the key down the tree, and at a node only the child that the key selects has to
  be a node again.
\<close>

definition wf_path :: "Gptr set \<Rightarrow> RadixTree \<Rightarrow> byte list \<Rightarrow> bool" where
  "wf_path N t key =
     (root t \<in> N \<and> 0 \<notin> N
      \<and> (\<exists>r. mem t (root t) = Some r \<and> n_prefix_size r = 0)
      \<and> (\<forall>a \<in> N. \<exists>n. mem t a = Some n \<and> n_prefix_size n \<le> length (n_key n)
            \<and> (n_prefix_size n < length key \<longrightarrow> n_child n (key ! n_prefix_size n) \<noteq> 0 \<longrightarrow>
                  n_child n (key ! n_prefix_size n) \<in> N
                  \<and> (\<exists>c. mem t (n_child n (key ! n_prefix_size n)) = Some c
                        \<and> n_prefix_size n < n_prefix_size c))))"

text \<open>
  A fresh block: not null, mapped, not a node of the tree, with a key buffer of
  \<open>MAX_KEY_LEN\<close> bytes. Its contents are arbitrary. The heap serves \<open>k\<close> allocations
  when each of the next \<open>k\<close> retry loops ends with a fresh block, different from the
  blocks of the loops before.
\<close>

definition free_block :: "Gptr set \<Rightarrow> RadixTree \<Rightarrow> Gptr \<Rightarrow> bool" where
  "free_block N t a =
     (a \<noteq> 0 \<and> a \<notin> N \<and> (case mem t a of None \<Rightarrow> False | Some n \<Rightarrow> length (n_key n) = MAX_KEY_LEN t))"

fun heap_serves :: "Gptr set \<Rightarrow> RadixTree \<Rightarrow> nat \<Rightarrow> bool" where
  "heap_serves N t 0 = True"
| "heap_serves N t (Suc k) =
     (case alloc_retry (alloc_retry_cnt t) 0 t of
        (a, t1) \<Rightarrow> free_block N t a \<and> heap_serves (insert a N) t1 k)"

text \<open>
  The number of nodes a \<open>put\<close> allocates, read from the way its inner loop is left: none
  where it returns (the key has a node), one for the new leaf of case 1 and for the
  intermediate node of case 2 that takes the value, two for an intermediate node with a
  new leaf.
\<close>

definition nodes_allocated :: "byte list \<Rightarrow> (error + put_exit \<times> RadixTree) option \<Rightarrow> nat" where
  "nodes_allocated key r =
     (case r of
        Some (Inr (Continue p q prefix_size existing, t1)) \<Rightarrow>
          if q \<noteq> 0 \<and> prefix_size \<noteq> length key then 2 else 1
      | _ \<Rightarrow> 0)"

definition put_allocates :: "RadixTree \<Rightarrow> byte list \<Rightarrow> Gptr \<Rightarrow> nat" where
  "put_allocates t key val =
     nodes_allocated key (put_descend t key val True 0 0 None (root t) 0 0)"

text \<open>
  The invariant of the spec (section 3, invariant 2) on top of well-formedness: the key
  buffer of a child repeats the prefix of its parent and goes on with the byte of the
  child slot. A block is zeroed when its child array holds null pointers only, and
  \<open>heap_zeroed\<close> tells that of the blocks of the next \<open>k\<close> allocations.
\<close>

definition node_ok :: "Gptr set \<Rightarrow> RadixTree \<Rightarrow> Gptr \<Rightarrow> bool" where
  "node_ok N t a =
     (\<exists>n. mem t a = Some n \<and> n_prefix_size n \<le> length (n_key n)
        \<and> (\<forall>b. n_child n b \<noteq> 0 \<longrightarrow>
              n_child n b \<in> N
              \<and> (\<exists>c. mem t (n_child n b) = Some c \<and> n_prefix_size n < n_prefix_size c
                    \<and> take (Suc (n_prefix_size n)) (n_key c)
                        = take (n_prefix_size n) (n_key n) @ [b])))"

definition tree_inv :: "Gptr set \<Rightarrow> RadixTree \<Rightarrow> bool" where
  "tree_inv N t =
     (root t \<in> N \<and> 0 \<notin> N
      \<and> (\<exists>r. mem t (root t) = Some r \<and> n_prefix_size r = 0)
      \<and> (\<forall>a \<in> N. node_ok N t a))"

definition zeroed_block :: "RadixTree \<Rightarrow> Gptr \<Rightarrow> bool" where
  "zeroed_block t a = (case mem t a of None \<Rightarrow> False | Some n \<Rightarrow> \<forall>b. n_child n b = 0)"

fun heap_zeroed :: "RadixTree \<Rightarrow> nat \<Rightarrow> bool" where
  "heap_zeroed t 0 = True"
| "heap_zeroed t (Suc k) =
     (case alloc_retry (alloc_retry_cnt t) 0 t of
        (a, t1) \<Rightarrow> zeroed_block t a \<and> heap_zeroed t1 k)"

text \<open>
  \<open>Alloc\<close> returns 0 on every call of a retry loop: \<open>allocs\<close> lists the results to
  come, an exhausted heap returns 0, and there is no call at all where
  \<open>alloc_retry_cnt\<close> is not positive.
\<close>

definition alloc_fails :: "RadixTree \<Rightarrow> bool" where
  "alloc_fails t = (\<forall>a \<in> set (take (nat (alloc_retry_cnt t)) (allocs t)). a = 0)"

section \<open>The descent, as the proofs see it\<close>

text \<open>
  \<open>get\<close>, \<open>getC\<close>, \<open>destroy\<close> and \<open>destroyC\<close> walk down the tree in the same way. One
  step at a node \<open>q\<close> of that walk ends in an error, misses (the compared prefix
  differs), hits (the node's prefix is the key) or goes down to a child. \<open>descent t key
  q r\<close> tells where the walk from \<open>q\<close> ends: in an error, at the null pointer (the key
  has no node) or at the node of the key.
\<close>

datatype step = Miss | Hit | Down Gptr

definition descend_step :: "RadixTree \<Rightarrow> byte list \<Rightarrow> Gptr \<Rightarrow> error + step" where
  "descend_step t key q =
     (case toLocal t q of
        None \<Rightarrow> Inl Assert_local
      | Some n \<Rightarrow>
          (case fam_memcmp key (n_key n) (min (n_prefix_size n) (length key)) of
             Inl e \<Rightarrow> Inl e
           | Inr result \<Rightarrow>
               if result \<noteq> 0 then Inr Miss
               else if n_prefix_size n = length key then Inr Hit
               else if length key \<le> n_prefix_size n then Inl Key_index_out_of_range
               else Inr (Down (n_child n (key ! n_prefix_size n)))))"

inductive descent :: "RadixTree \<Rightarrow> byte list \<Rightarrow> Gptr \<Rightarrow> error + Gptr \<Rightarrow> bool" where
  d_null: "descent t key 0 (Inr 0)"
| d_error: "q \<noteq> 0 \<Longrightarrow> descend_step t key q = Inl e \<Longrightarrow> descent t key q (Inl e)"
| d_miss: "q \<noteq> 0 \<Longrightarrow> descend_step t key q = Inr Miss \<Longrightarrow> descent t key q (Inr 0)"
| d_hit: "q \<noteq> 0 \<Longrightarrow> descend_step t key q = Inr Hit \<Longrightarrow> descent t key q (Inr q)"
| d_down: "q \<noteq> 0 \<Longrightarrow> descend_step t key q = Inr (Down c) \<Longrightarrow> descent t key c r \<Longrightarrow> descent t key q r"

definition value_at :: "RadixTree \<Rightarrow> Gptr \<Rightarrow> TagGptr" where
  "value_at t q = (case toLocal t q of None \<Rightarrow> TagGptr0 | Some n \<Rightarrow> n_value n)"

text \<open>The value slot of a node, and the memory after a store to it.\<close>

definition set_value :: "RadixTree \<Rightarrow> Gptr \<Rightarrow> TagGptr \<Rightarrow> RadixTree" where
  "set_value t q tq =
     (case mem t q of None \<Rightarrow> t | Some n \<Rightarrow> t\<lparr>mem := (mem t)(q \<mapsto> n\<lparr>n_value := tq\<rparr>)\<rparr>)"

text \<open>
  For the proof that a put is found by the following get: what a slot \<open>p\<close> of the
  descent holds (the null slot stands for the root pointer), the prefix length of the
  node that holds the slot, and what a put leaves unchanged: the key buffer and the
  prefix of every node of the tree, and the children of the nodes whose prefix is
  shorter than \<open>d\<close>.
\<close>

definition slot_value :: "RadixTree \<Rightarrow> slot \<Rightarrow> Gptr" where
  "slot_value t p =
     (case p of
        None \<Rightarrow> root t
      | Some (a, b) \<Rightarrow> (case mem t a of None \<Rightarrow> 0 | Some n \<Rightarrow> n_child n b))"


definition frame :: "Gptr set \<Rightarrow> RadixTree \<Rightarrow> RadixTree \<Rightarrow> nat \<Rightarrow> bool" where
  "frame N t t' d =
     (\<forall>x \<in> N. \<exists>n n'. mem t x = Some n \<and> mem t' x = Some n'
        \<and> n_key n' = n_key n \<and> n_prefix_size n' = n_prefix_size n
        \<and> (n_prefix_size n < d \<longrightarrow> n_child n' = n_child n))"

section \<open>Example memories, trees and clients\<close>

text \<open>
  A zeroed block with a key buffer of 8 bytes, and a memory of four such blocks that the
  heap hands out in order; \<open>MAX_KEY_LEN\<close> is 8, \<open>alloc_retry_cnt\<close> is 3, the open
  boundary key is the single byte 0, and the assertions are compiled in.
\<close>

definition blank_node :: Node where
  "blank_node = \<lparr>n_key = replicate 8 0, n_prefix_size = 0, n_child = (\<lambda>_. 0), n_value = TagGptr0\<rparr>"

definition fresh_heap :: RadixTree where
  "fresh_heap =
     \<lparr>root = 0,
      mem = [0x10 \<mapsto> blank_node, 0x20 \<mapsto> blank_node, 0x30 \<mapsto> blank_node, 0x40 \<mapsto> blank_node],
      allocs = [0x10, 0x20, 0x30, 0x40], freed = [],
      MAX_KEY_LEN = 8, alloc_retry_cnt = 3, OPEN_BOUNDARY_KEY = [0], NDEBUG = False\<rparr>"

definition fresh_iter :: Iter where
  "fresh_iter =
     \<lparr>it_node = 0, it_next_pos = 0, it_path = [], it_begin_key = [], it_begin_key_inclusive = False,
      it_begin_key_open = False, it_end_key = [], it_end_key_inclusive = False,
      it_end_key_open = False, it_key = [], it_value = TagGptr0\<rparr>"

text \<open>A client that constructs a tree on the fresh memory and puts the pairs in order.\<close>

fun insert_all :: "RadixTree \<Rightarrow> (byte list \<times> Gptr) list \<Rightarrow> (error + RadixTree) option" where
  "insert_all t [] = Some (Inr t)"
| "insert_all t ((k, v) # kvs) =
     (case put t k v True of
        None \<Rightarrow> None
      | Some (Inl e) \<Rightarrow> Some (Inl e)
      | Some (Inr (old, t')) \<Rightarrow> insert_all t' kvs)"

definition tree_of :: "(byte list \<times> Gptr) list \<Rightarrow> (error + RadixTree) option" where
  "tree_of kvs =
     (case RadixTree_new fresh_heap of
        Inl e \<Rightarrow> Some (Inl e)
      | Inr t \<Rightarrow> insert_all t kvs)"

text \<open>
  Example trees: the key "x" with the value 9; that tree after \<open>destroy("x")\<close>; and a
  tree, as a process may find it in the shared memory, whose node "A" holds the value 5
  with the largest tag, with two free blocks in the heap.
\<close>

definition tree_x :: RadixTree where
  "tree_x = (case tree_of [([0x78], 9)] of Some (Inr t) \<Rightarrow> t | _ \<Rightarrow> fresh_heap)"

definition tree_x_destroyed :: RadixTree where
  "tree_x_destroyed = (case destroy tree_x [0x78] of Some (Inr (old, t)) \<Rightarrow> t | _ \<Rightarrow> tree_x)"

definition tree_max_tag :: RadixTree where
  "tree_max_tag =
     \<lparr>root = 0x10,
      mem = [0x10 \<mapsto> blank_node\<lparr>n_child := (\<lambda>_. 0)(0x41 := 0x20)\<rparr>,
             0x20 \<mapsto> \<lparr>n_key = [0x41, 0, 0, 0, 0, 0, 0, 0], n_prefix_size = 1, n_child = (\<lambda>_. 0),
                       n_value = \<lparr>gptr = 5, tag = 0xFFFFFFFFFFFFFFFF\<rparr>\<rparr>,
             0x30 \<mapsto> blank_node, 0x40 \<mapsto> blank_node],
      allocs = [0x30, 0x40], freed = [],
      MAX_KEY_LEN = 8, alloc_retry_cnt = 3, OPEN_BOUNDARY_KEY = [0], NDEBUG = False\<rparr>"



text \<open>The tree with the key "x" on a heap whose \<open>Alloc\<close> returns 0 from now on.\<close>

definition tree_x_heap_exhausted :: RadixTree where
  "tree_x_heap_exhausted = tree_x\<lparr>allocs := [0, 0, 0]\<rparr>"

text \<open>
  The tree with the key "AB" (built by the constructor and one \<open>put\<close>) on a heap that
  has one block left.
\<close>

definition tree_ab_one_block :: RadixTree where
  "tree_ab_one_block =
     (case tree_of [([0x41, 0x42], 200)] of
        Some (Inr t) \<Rightarrow> t\<lparr>allocs := [0x30, 0, 0, 0]\<rparr>
      | _ \<Rightarrow> fresh_heap)"

text \<open>
  A client that calls \<open>get_next\<close> until it reports not found, at most \<open>n\<close> times, and
  collects what is yielded; \<open>scan_all\<close> starts with \<open>scan\<close>.
\<close>

fun get_next_n :: "nat \<Rightarrow> RadixTree \<Rightarrow> Iter \<Rightarrow> (error + (byte list \<times> TagGptr) list) option" where
  "get_next_n 0 t iter = Some (Inr [])"
| "get_next_n (Suc n) t iter =
     (case get_next t iter of
        None \<Rightarrow> None
      | Some (Inl e) \<Rightarrow> Some (Inl e)
      | Some (Inr (None, iter')) \<Rightarrow> Some (Inr [])
      | Some (Inr (Some kv, iter')) \<Rightarrow>
          (case get_next_n n t iter' of
             None \<Rightarrow> None
           | Some (Inl e) \<Rightarrow> Some (Inl e)
           | Some (Inr kvs) \<Rightarrow> Some (Inr (kv # kvs))))"

definition scan_all ::
  "nat \<Rightarrow> RadixTree \<Rightarrow> Iter \<Rightarrow> byte list \<Rightarrow> bool \<Rightarrow> byte list \<Rightarrow> bool
    \<Rightarrow> (error + (byte list \<times> TagGptr) list) option" where
  "scan_all n t iter begin_key begin_key_inclusive end_key end_key_inclusive =
     (case scan t iter begin_key begin_key_inclusive end_key end_key_inclusive of
        None \<Rightarrow> None
      | Some (Inl e) \<Rightarrow> Some (Inl e)
      | Some (Inr (None, iter')) \<Rightarrow> Some (Inr [])
      | Some (Inr (Some kv, iter')) \<Rightarrow>
          (case get_next_n n t iter' of
             None \<Rightarrow> None
           | Some (Inl e) \<Rightarrow> Some (Inl e)
           | Some (Inr kvs) \<Rightarrow> Some (Inr (kv # kvs))))"

text \<open>
  The equations of the loops are unfolded by hand in the proofs, one iteration at a time.
\<close>

declare first_mismatch.simps [simp del]
declare alloc_retry.simps [simp del]
declare cas_value_loop.simps [simp del]
declare go_up.simps [simp del]
declare scan_children.simps [simp del]

declare put_descend.simps [code]
declare put_loop.simps [code]
declare get_loop.simps [code]
declare destroy_loop.simps [code]
declare next_value.simps [code]
declare lower_bound_loop.simps [code]
declare putC_descend.simps [code]
declare putC_loop.simps [code]
declare getC_loop.simps [code]
declare destroyC_loop.simps [code]

section \<open>Lemmas on the comparison of keys and on the descent\<close>

lemma fam_memcmp_zero_iff:
  "fam_memcmp a b n = Inr 0 \<longleftrightarrow> n \<le> length a \<and> n \<le> length b \<and> take n a = take n b"
  by (induction a b n rule: fam_memcmp.induct) auto

lemma first_mismatch_equal:
  "i \<le> m \<Longrightarrow> m \<le> length key \<Longrightarrow> m \<le> length nkey \<Longrightarrow> \<forall>j. i \<le> j \<and> j < m \<longrightarrow> key ! j = nkey ! j
   \<Longrightarrow> first_mismatch key nkey m i = Inr m"
proof (induction key nkey m i rule: first_mismatch.induct)
  case (1 key nkey max_i i)
  show ?case
  proof (cases "i < max_i")
    case True
    with 1 show ?thesis by (subst first_mismatch.simps) auto
  next
    case False
    with 1 show ?thesis by (subst first_mismatch.simps) auto
  qed
qed

lemma memcmp_zero_first_mismatch:
  assumes "fam_memcmp key nkey (min ps (length key)) = Inr 0"
  shows "first_mismatch key nkey (min (length key) ps) 0 = Inr (min (length key) ps)"
proof -
  let ?m = "min (length key) ps"
  from assms have le: "?m \<le> length key" "?m \<le> length nkey" and tk: "take ?m key = take ?m nkey"
    by (simp_all add: fam_memcmp_zero_iff min.commute)
  have "\<forall>j. 0 \<le> j \<and> j < ?m \<longrightarrow> key ! j = nkey ! j"
  proof (intro allI impI)
    fix j assume "0 \<le> j \<and> j < ?m"
    then have "take ?m key ! j = take ?m nkey ! j" using tk by simp
    then show "key ! j = nkey ! j" using \<open>0 \<le> j \<and> j < ?m\<close> by simp
  qed
  then show ?thesis using le by (intro first_mismatch_equal) auto
qed

lemma get_loop_step:
  "get_loop t key q =
     (if q = 0 then Some (Inr TagGptr0)
      else case descend_step t key q of
             Inl e \<Rightarrow> Some (Inl e)
           | Inr Miss \<Rightarrow> Some (Inr TagGptr0)
           | Inr Hit \<Rightarrow> Some (Inr (value_at t q))
           | Inr (Down c) \<Rightarrow> get_loop t key c)"
  by (subst get_loop.simps) (simp add: descend_step_def value_at_def split: option.splits sum.splits)

lemma getC_loop_step:
  "getC_loop t key q =
     (if q = 0 then Some (Inr (0, TagGptr0))
      else case descend_step t key q of
             Inl e \<Rightarrow> Some (Inl e)
           | Inr Miss \<Rightarrow> Some (Inr (0, TagGptr0))
           | Inr Hit \<Rightarrow> Some (Inr (q, value_at t q))
           | Inr (Down c) \<Rightarrow> getC_loop t key c)"
  by (subst getC_loop.simps) (simp add: descend_step_def value_at_def split: option.splits sum.splits)

lemma descent_get_loop:
  "descent t key q r \<Longrightarrow>
   get_loop t key q = Some (case r of Inl e \<Rightarrow> Inl e | Inr a \<Rightarrow> Inr (value_at t a))"
proof (induction rule: descent.induct)
  case (d_null t key)
  show ?case by (subst get_loop_step) (simp add: value_at_def toLocal_def)
next
  case (d_error q t key e)
  then show ?case by (subst get_loop_step) simp
next
  case (d_miss q t key)
  then show ?case by (subst get_loop_step) (simp add: value_at_def toLocal_def)
next
  case (d_hit q t key)
  then show ?case by (subst get_loop_step) simp
next
  case (d_down q t key c r)
  then show ?case by (subst get_loop_step) simp
qed

lemma descent_getC_loop:
  "descent t key q r \<Longrightarrow>
   getC_loop t key q = Some (case r of Inl e \<Rightarrow> Inl e | Inr a \<Rightarrow> Inr (a, value_at t a))"
proof (induction rule: descent.induct)
  case (d_null t key)
  show ?case by (subst getC_loop_step) (simp add: value_at_def toLocal_def)
next
  case (d_error q t key e)
  then show ?case by (subst getC_loop_step) simp
next
  case (d_miss q t key)
  then show ?case by (subst getC_loop_step) (simp add: value_at_def toLocal_def)
next
  case (d_hit q t key)
  then show ?case by (subst getC_loop_step) simp
next
  case (d_down q t key c r)
  then show ?case by (subst getC_loop_step) simp
qed

lemma get_loop_descent:
  assumes "get_loop t key q = Some y"
  shows "\<exists>r. descent t key q r"
  using TrueI
proof (induction t key q y rule: get_loop.raw_induct)
  case (1 f t key q y)
  show ?case
  proof (cases "q = 0")
    case True
    then show ?thesis by (auto intro: descent.intros)
  next
    case nz: False
    show ?thesis
    proof (cases "descend_step t key q")
      case (Inl e)
      with nz show ?thesis by (auto intro: descent.intros)
    next
      case (Inr s)
      show ?thesis
      proof (cases s)
        case Miss
        with nz Inr show ?thesis by (auto intro: descent.intros)
      next
        case Hit
        with nz Inr show ?thesis by (auto intro: descent.intros)
      next
        case (Down c)
        with nz Inr 1(2) have "f t key c = Some y"
          by (simp add: descend_step_def split: option.splits sum.splits if_splits)
        from 1(1)[OF this TrueI] obtain r where "descent t key c r" ..
        with nz Inr Down show ?thesis by (auto intro: descent.intros)
      qed
    qed
  qed
qed (fact assms)


lemma getC_loop_descent:
  assumes "getC_loop t key q = Some y"
  shows "\<exists>r. descent t key q r"
  using TrueI
proof (induction t key q y rule: getC_loop.raw_induct)
  case (1 f t key q y)
  show ?case
  proof (cases "q = 0")
    case True
    then show ?thesis by (auto intro: descent.intros)
  next
    case nz: False
    show ?thesis
    proof (cases "descend_step t key q")
      case (Inl e)
      with nz show ?thesis by (auto intro: descent.intros)
    next
      case (Inr s)
      show ?thesis
      proof (cases s)
        case Miss
        with nz Inr show ?thesis by (auto intro: descent.intros)
      next
        case Hit
        with nz Inr show ?thesis by (auto intro: descent.intros)
      next
        case (Down c)
        with nz Inr 1(2) have "f t key c = Some y"
          by (simp add: descend_step_def split: option.splits sum.splits if_splits)
        from 1(1)[OF this TrueI] obtain r where "descent t key c r" ..
        with nz Inr Down show ?thesis by (auto intro: descent.intros)
      qed
    qed
  qed
qed (fact assms)

lemma value_at_null [simp]: "value_at t 0 = TagGptr0"
  by (simp add: value_at_def toLocal_def)

lemma not_valid_TagGptr0 [simp]: "\<not> IsValid TagGptr0"
  by (simp add: IsValid_def TagGptr0_def)

lemma descent_hit_mapped:
  "descent t key q r \<Longrightarrow> r = Inr a \<Longrightarrow> a \<noteq> 0 \<Longrightarrow> \<exists>n. mem t a = Some n"
proof (induction rule: descent.induct)
  case (d_hit q t key)
  then show ?case
    by (auto simp: descend_step_def toLocal_def split: option.splits sum.splits if_splits)
qed auto

text \<open>A key with a valid value is found by the descent.\<close>

lemma get_loop_valid_descent:
  assumes "get_loop t key q = Some (Inr tq)" and "IsValid tq"
  shows "\<exists>a. a \<noteq> 0 \<and> descent t key q (Inr a) \<and> value_at t a = tq"
proof -
  from get_loop_descent [OF assms(1)] obtain r where d: "descent t key q r" ..
  from descent_get_loop [OF d] assms(1)
  have eq: "(case r of Inl e \<Rightarrow> Inl e | Inr a \<Rightarrow> Inr (value_at t a)) = Inr tq" by simp
  then obtain a where r: "r = Inr a" and v: "value_at t a = tq" by (cases r) auto
  from v assms(2) have "a \<noteq> 0" by auto
  with d r v show ?thesis by auto
qed

lemma getC_loop_found_descent:
  assumes "getC_loop t key q = Some (Inr (a, tq))" and "a \<noteq> 0"
  shows "descent t key q (Inr a) \<and> value_at t a = tq"
proof -
  from getC_loop_descent [OF assms(1)] obtain r where d: "descent t key q r" ..
  from descent_getC_loop [OF d] assms(1)
  have "(case r of Inl e \<Rightarrow> Inl e | Inr a \<Rightarrow> Inr (a, value_at t a)) = Inr (a, tq)" by simp
  then have "r = Inr a" "value_at t a = tq" by (cases r; auto)+
  with d show ?thesis by simp
qed

lemma cas_value_loop_succeeds:
  "mem t q = Some n \<Longrightarrow>
   cas_value_loop t q (n_value n) v =
     Inr (n_value n, \<lparr>gptr = v, tag = tag (n_value n) + 1\<rparr>,
          set_value t q \<lparr>gptr = v, tag = tag (n_value n) + 1\<rparr>)"
  by (subst cas_value_loop.simps) (simp add: casTagGptr_def set_value_def)

lemma destroy_loop_step:
  "destroy_loop t key q =
     (if q = 0 then Some (Inr (TagGptr0, t))
      else case descend_step t key q of
             Inl e \<Rightarrow> Some (Inl e)
           | Inr Miss \<Rightarrow> Some (Inr (TagGptr0, t))
           | Inr Hit \<Rightarrow>
               Some (Inr (value_at t q, set_value t q \<lparr>gptr = 0, tag = tag (value_at t q) + 1\<rparr>))
           | Inr (Down c) \<Rightarrow> destroy_loop t key c)"
  by (subst destroy_loop.simps)
     (auto simp: descend_step_def value_at_def toLocal_def cas_value_loop_succeeds
           split: option.splits sum.splits)

lemma destroyC_loop_step:
  "destroyC_loop t key old0 q =
     (if q = 0 then Some (Inr ((0, TagGptr0, old0), t))
      else case descend_step t key q of
             Inl e \<Rightarrow> Some (Inl e)
           | Inr Miss \<Rightarrow> Some (Inr ((0, TagGptr0, old0), t))
           | Inr Hit \<Rightarrow>
               Some (Inr ((q, \<lparr>gptr = 0, tag = tag (value_at t q) + 1\<rparr>, value_at t q),
                          set_value t q \<lparr>gptr = 0, tag = tag (value_at t q) + 1\<rparr>))
           | Inr (Down c) \<Rightarrow> destroyC_loop t key old0 c)"
  by (subst destroyC_loop.simps)
     (auto simp: descend_step_def value_at_def toLocal_def cas_value_loop_succeeds
           split: option.splits sum.splits)

lemma descent_destroy_loop:
  "descent t key q r \<Longrightarrow> r = Inr a \<Longrightarrow> a \<noteq> 0 \<Longrightarrow>
   destroy_loop t key q =
     Some (Inr (value_at t a, set_value t a \<lparr>gptr = 0, tag = tag (value_at t a) + 1\<rparr>))"
proof (induction rule: descent.induct)
  case (d_hit q t key)
  then show ?case by (subst destroy_loop_step) simp
next
  case (d_down q t key c r)
  then show ?case by (subst destroy_loop_step) simp
qed auto

lemma descent_destroyC_loop:
  "descent t key q r \<Longrightarrow> r = Inr a \<Longrightarrow> a \<noteq> 0 \<Longrightarrow>
   destroyC_loop t key old0 q =
     Some (Inr ((a, \<lparr>gptr = 0, tag = tag (value_at t a) + 1\<rparr>, value_at t a),
                set_value t a \<lparr>gptr = 0, tag = tag (value_at t a) + 1\<rparr>))"
proof (induction rule: descent.induct)
  case (d_hit q t key)
  then show ?case by (subst destroyC_loop_step) simp
next
  case (d_down q t key c r)
  then show ?case by (subst destroyC_loop_step) simp
qed auto

lemma descend_step_hit_facts:
  assumes "q \<noteq> 0" "descend_step t key q = Inr Hit"
  shows "\<exists>n. mem t q = Some n \<and> n_prefix_size n = length key
           \<and> first_mismatch key (n_key n) (min (length key) (n_prefix_size n)) 0 = Inr (length key)"
proof -
  from assms obtain n where n: "mem t q = Some n"
    by (auto simp: descend_step_def toLocal_def split: option.splits)
  from assms n have z: "fam_memcmp key (n_key n) (min (n_prefix_size n) (length key)) = Inr 0"
    and ps: "n_prefix_size n = length key"
    by (auto simp: descend_step_def toLocal_def split: sum.splits if_splits)
  from memcmp_zero_first_mismatch [OF z] ps n show ?thesis by simp
qed

lemma descend_step_down_facts:
  assumes "q \<noteq> 0" "descend_step t key q = Inr (Down c)"
  shows "\<exists>n. mem t q = Some n \<and> n_prefix_size n < length key \<and> c = n_child n (key ! n_prefix_size n)
           \<and> first_mismatch key (n_key n) (min (length key) (n_prefix_size n)) 0 = Inr (n_prefix_size n)"
proof -
  from assms obtain n where n: "mem t q = Some n"
    by (auto simp: descend_step_def toLocal_def split: option.splits)
  from assms n have z: "fam_memcmp key (n_key n) (min (n_prefix_size n) (length key)) = Inr 0"
    and ps: "n_prefix_size n < length key" and c: "c = n_child n (key ! n_prefix_size n)"
    by (auto simp: descend_step_def toLocal_def split: sum.splits if_splits)
  from memcmp_zero_first_mismatch [OF z] ps have
    "first_mismatch key (n_key n) (min (length key) (n_prefix_size n)) 0 = Inr (n_prefix_size n)"
    by (simp add: min_def)
  with n ps c show ?thesis by simp
qed

lemma value_at_mem: "q \<noteq> 0 \<Longrightarrow> mem t q = Some n \<Longrightarrow> value_at t q = n_value n"
  by (simp add: value_at_def toLocal_def)

lemma put_descend_hit:
  assumes "q \<noteq> 0" "descend_step t key q = Inr Hit"
  shows "put_descend t key v u 0 0 p q ps ex =
           Some (Inr (Return (value_at t q),
                      if u \<or> \<not> IsValid (value_at t q)
                      then set_value t q \<lparr>gptr = v, tag = tag (value_at t q) + 1\<rparr> else t))"
proof -
  from descend_step_hit_facts [OF assms] obtain n where n: "mem t q = Some n"
    and ps: "n_prefix_size n = length key"
    and fm: "first_mismatch key (n_key n) (min (length key) (n_prefix_size n)) 0 = Inr (length key)"
    by blast
  have tl: "toLocal t q = Some n" using n assms(1) by (simp add: toLocal_def)
  have va: "value_at t q = n_value n" using n assms(1) by (rule value_at_mem [rotated])
  have unfolded: "put_descend t key v u 0 0 p q ps ex =
      (if u then
         (case cas_value_loop t q (n_value n) v of
            Inl e \<Rightarrow> Some (Inl e)
          | Inr (old, new, t3) \<Rightarrow> Some (Inr (Return old, t3)))
       else if IsValid (n_value n) then Some (Inr (Return (n_value n), t))
       else
         (case casTagGptr t q (n_value n) \<lparr>gptr = v, tag = tag (n_value n) + 1\<rparr> of
            Inl e \<Rightarrow> Some (Inl e)
          | Inr (seen_tq, t3) \<Rightarrow>
              if seen_tq = n_value n then Some (Inr (Return (n_value n), t3))
              else Some (Inr (Continue p q ps ex, t3))))"
    using assms(1) tl fm ps by (subst put_descend.simps) (simp add: Let_def)
  have cas: "casTagGptr t q (n_value n) \<lparr>gptr = v, tag = tag (n_value n) + 1\<rparr>
      = Inr (n_value n, set_value t q \<lparr>gptr = v, tag = tag (n_value n) + 1\<rparr>)"
    using n by (simp add: casTagGptr_def set_value_def)
  show ?thesis
    unfolding unfolded va cas cas_value_loop_succeeds [OF n] by simp
qed

lemma put_descend_down:
  assumes "q \<noteq> 0" "descend_step t key q = Inr (Down c)"
  shows "\<exists>p'. put_descend t key v u nl im p q ps ex = put_descend t key v u nl im p' c ps ex"
proof -
  from descend_step_down_facts [OF assms] obtain n where n: "mem t q = Some n"
    and ps: "n_prefix_size n < length key" and c: "c = n_child n (key ! n_prefix_size n)"
    and fm: "first_mismatch key (n_key n) (min (length key) (n_prefix_size n)) 0 = Inr (n_prefix_size n)"
    by blast
  have tl: "toLocal t q = Some n" using n assms(1) by (simp add: toLocal_def)
  have "put_descend t key v u nl im p q ps ex
          = put_descend t key v u nl im (Some (q, key ! n_prefix_size n)) c ps ex"
    using assms(1) tl fm ps c by (subst put_descend.simps) simp
  then show ?thesis ..
qed

lemma descent_put_descend:
  "descent t key q r \<Longrightarrow> r = Inr a \<Longrightarrow> a \<noteq> 0 \<Longrightarrow>
   put_descend t key v u 0 0 p q ps ex =
     Some (Inr (Return (value_at t a),
                if u \<or> \<not> IsValid (value_at t a)
                then set_value t a \<lparr>gptr = v, tag = tag (value_at t a) + 1\<rparr> else t))"
proof (induction arbitrary: p rule: descent.induct)
  case (d_hit q t key)
  then show ?case using put_descend_hit by simp
next
  case (d_down q t key c r)
  from put_descend_down [OF d_down(1,2)] obtain p' where
    "put_descend t key v u 0 0 p q ps ex = put_descend t key v u 0 0 p' c ps ex" by blast
  with d_down show ?case by simp
qed auto

lemma descent_put_loop:
  assumes "descent t key q (Inr a)" "a \<noteq> 0"
  shows "put_loop t key v u 0 0 p q ps ex =
     Some (Inr (value_at t a,
                if u \<or> \<not> IsValid (value_at t a)
                then set_value t a \<lparr>gptr = v, tag = tag (value_at t a) + 1\<rparr> else t))"
  apply (subst put_loop.simps)
  apply (subst descent_put_descend [OF assms(1) refl assms(2)])
  apply (simp only: option.case sum.case prod.case put_exit.case)
  done

lemma putC_descend_hit:
  assumes "q \<noteq> 0" "descend_step t key q = Inr Hit"
  shows "putC_descend t key v 0 0 p q ps ex =
           Some (Inr (ReturnC q \<lparr>gptr = v, tag = tag (value_at t q) + 1\<rparr> (value_at t q),
                      set_value t q \<lparr>gptr = v, tag = tag (value_at t q) + 1\<rparr>))"
proof -
  from descend_step_hit_facts [OF assms] obtain n where n: "mem t q = Some n"
    and ps: "n_prefix_size n = length key"
    and fm: "first_mismatch key (n_key n) (min (length key) (n_prefix_size n)) 0 = Inr (length key)"
    by blast
  have tl: "toLocal t q = Some n" using n assms(1) by (simp add: toLocal_def)
  have va: "value_at t q = n_value n" using n assms(1) by (rule value_at_mem [rotated])
  have unfolded: "putC_descend t key v 0 0 p q ps ex =
      (case cas_value_loop t q (n_value n) v of
         Inl e \<Rightarrow> Some (Inl e)
       | Inr (old, new, t3) \<Rightarrow> Some (Inr (ReturnC q new old, t3)))"
    using assms(1) tl fm ps by (subst putC_descend.simps) (simp add: Let_def)
  show ?thesis
    unfolding unfolded va cas_value_loop_succeeds [OF n] by simp
qed

lemma putC_descend_down:
  assumes "q \<noteq> 0" "descend_step t key q = Inr (Down c)"
  shows "\<exists>p'. putC_descend t key v nl im p q ps ex = putC_descend t key v nl im p' c ps ex"
proof -
  from descend_step_down_facts [OF assms] obtain n where n: "mem t q = Some n"
    and ps: "n_prefix_size n < length key" and c: "c = n_child n (key ! n_prefix_size n)"
    and fm: "first_mismatch key (n_key n) (min (length key) (n_prefix_size n)) 0 = Inr (n_prefix_size n)"
    by blast
  have tl: "toLocal t q = Some n" using n assms(1) by (simp add: toLocal_def)
  have "putC_descend t key v nl im p q ps ex
          = putC_descend t key v nl im (Some (q, key ! n_prefix_size n)) c ps ex"
    using assms(1) tl fm ps c by (subst putC_descend.simps) simp
  then show ?thesis ..
qed

lemma descent_putC_descend:
  "descent t key q r \<Longrightarrow> r = Inr a \<Longrightarrow> a \<noteq> 0 \<Longrightarrow>
   putC_descend t key v 0 0 p q ps ex =
     Some (Inr (ReturnC a \<lparr>gptr = v, tag = tag (value_at t a) + 1\<rparr> (value_at t a),
                set_value t a \<lparr>gptr = v, tag = tag (value_at t a) + 1\<rparr>))"
proof (induction arbitrary: p rule: descent.induct)
  case (d_hit q t key)
  then show ?case using putC_descend_hit by simp
next
  case (d_down q t key c r)
  from putC_descend_down [OF d_down(1,2)] obtain p' where
    "putC_descend t key v 0 0 p q ps ex = putC_descend t key v 0 0 p' c ps ex" by blast
  with d_down show ?case by simp
qed auto

lemma descent_putC_loop:
  assumes "descent t key q (Inr a)" "a \<noteq> 0"
  shows "putC_loop t key v 0 0 p q ps ex =
     Some (Inr ((a, \<lparr>gptr = v, tag = tag (value_at t a) + 1\<rparr>, value_at t a),
                set_value t a \<lparr>gptr = v, tag = tag (value_at t a) + 1\<rparr>))"
  apply (subst putC_loop.simps)
  apply (subst descent_putC_descend [OF assms(1) refl assms(2)])
  apply (simp only: option.case sum.case prod.case putC_exit.case)
  done

text \<open>A store to a value slot changes no step of the descent.\<close>

lemma toLocal_set_value:
  "toLocal (set_value t a tq) q =
     (case toLocal t q of None \<Rightarrow> None | Some n \<Rightarrow> Some (if q = a then n\<lparr>n_value := tq\<rparr> else n))"
  by (cases "mem t a"; cases "mem t q") (auto simp: toLocal_def set_value_def)

lemma descend_step_set_value: "descend_step (set_value t a tq) key q = descend_step t key q"
proof (cases "toLocal t q")
  case None
  then show ?thesis by (simp add: descend_step_def toLocal_set_value)
next
  case (Some n)
  show ?thesis
  proof (cases "q = a")
    case True
    with Some have "toLocal (set_value t a tq) q = Some (n\<lparr>n_value := tq\<rparr>)"
      by (simp add: toLocal_set_value)
    with Some show ?thesis by (simp add: descend_step_def split: sum.splits)
  next
    case False
    with Some have "toLocal (set_value t a tq) q = Some n"
      by (simp add: toLocal_set_value)
    with Some show ?thesis by (simp add: descend_step_def)
  qed
qed

lemma descent_set_value:
  "descent t key q r \<Longrightarrow> descent (set_value t a tq) key q r"
proof (induction rule: descent.induct)
  case (d_null t key)
  show ?case by (rule descent.d_null)
next
  case (d_error q t key e)
  then show ?case by (simp add: descent.d_error descend_step_set_value)
next
  case (d_miss q t key)
  then show ?case by (simp add: descent.d_miss descend_step_set_value)
next
  case (d_hit q t key)
  then show ?case by (simp add: descent.d_hit descend_step_set_value)
next
  case (d_down q t key c r)
  have "descend_step (set_value t a tq) key q = Inr (Down c)"
    using d_down(2) by (simp add: descend_step_set_value)
  from descent.d_down [OF d_down(1) this d_down(4)] show ?case .
qed

lemma value_at_set_value:
  "a \<noteq> 0 \<Longrightarrow> mem t a = Some n \<Longrightarrow> value_at (set_value t a tq) a = tq"
  by (simp add: value_at_def toLocal_set_value) (simp add: toLocal_def)

lemma set_value_fields [simp]:
  "root (set_value t a tq) = root t" "MAX_KEY_LEN (set_value t a tq) = MAX_KEY_LEN t"
  by (simp_all add: set_value_def split: option.splits)

section \<open>Operations on a key that has a node\<close>

lemma get_key_size:
  "get t key = Some (Inr tq) \<Longrightarrow>
   0 < length key \<and> length key \<le> MAX_KEY_LEN t \<and> get_loop t key (root t) = Some (Inr tq)"
  by (auto simp: get_def split: if_splits)

lemma getC_key_size:
  "getC t key = Some (Inr r) \<Longrightarrow>
   0 < length key \<and> length key \<le> MAX_KEY_LEN t \<and> getC_loop t key (root t) = Some (Inr r)"
  by (auto simp: getC_def split: if_splits)

text \<open>
  Claim C2. A key with a valid value: \<open>put\<close> without the update flag returns that
  tagged value and the tree as it was, every field of every node included, so that a
  following \<open>get\<close> is the one before the put.
\<close>

theorem put_without_update_keeps_tree:
  assumes "get t key = Some (Inr tq)" and "IsValid tq"
  shows "\<exists>t'. put t key v2 False = Some (Inr (tq, t')) \<and> t' = t \<and> get t' key = Some (Inr tq)"
proof -
  from get_key_size [OF assms(1)] have size: "0 < length key" "length key \<le> MAX_KEY_LEN t"
    and gl: "get_loop t key (root t) = Some (Inr tq)" by simp_all
  from get_loop_valid_descent [OF gl assms(2)] obtain a where a: "a \<noteq> 0"
    and d: "descent t key (root t) (Inr a)" and v: "value_at t a = tq" by blast
  have "put t key v2 False = Some (Inr (tq, t))"
    using size assms(2) v by (simp add: put_def descent_put_loop [OF d a])
  with assms(1) show ?thesis by simp
qed

lemma tree_x_get: "get tree_x [0x78] = Some (Inr \<lparr>gptr = 9, tag = 0\<rparr>)"
  by code_simp

theorem put_without_update_keeps_tree_witness:
  "get tree_x [0x78] = Some (Inr \<lparr>gptr = 9, tag = 0\<rparr>) \<and> IsValid \<lparr>gptr = 9, tag = 0\<rparr>
   \<and> put tree_x [0x78] 7 False = Some (Inr (\<lparr>gptr = 9, tag = 0\<rparr>, tree_x))"
proof -
  have valid: "IsValid \<lparr>gptr = 9, tag = 0\<rparr>" by (simp add: IsValid_def)
  from put_without_update_keeps_tree [OF tree_x_get valid, of 7] tree_x_get valid
  show ?thesis by simp
qed

text \<open>
  Claim C3. A key with a valid value: \<open>destroy\<close> returns that value; the following
  \<open>get\<close> returns an invalid tagged value; the next \<open>put\<close>, with either update flag,
  returns that invalid value as the prior one, and the \<open>get\<close> after it returns the
  value put.
\<close>

theorem destroy_get_put_get:
  assumes "get t key = Some (Inr tq)" and "IsValid tq"
  shows "\<exists>t1 tq1 t2 tq2.
           destroy t key = Some (Inr (tq, t1))
           \<and> get t1 key = Some (Inr tq1) \<and> \<not> IsValid tq1
           \<and> put t1 key v update = Some (Inr (tq1, t2))
           \<and> get t2 key = Some (Inr tq2) \<and> gptr tq2 = v"
proof -
  from get_key_size [OF assms(1)] have size: "0 < length key" "length key \<le> MAX_KEY_LEN t"
    and gl: "get_loop t key (root t) = Some (Inr tq)" by simp_all
  from get_loop_valid_descent [OF gl assms(2)] obtain a where a: "a \<noteq> 0"
    and d: "descent t key (root t) (Inr a)" and v: "value_at t a = tq" by blast
  define tq1 where "tq1 = \<lparr>gptr = 0, tag = tag tq + 1\<rparr>"
  define t1 where "t1 = set_value t a tq1"
  define tq2 where "tq2 = \<lparr>gptr = v, tag = tag tq1 + 1\<rparr>"
  define t2 where "t2 = set_value t1 a tq2"
  from descent_hit_mapped [OF d refl a] obtain n where n: "mem t a = Some n" ..
  have d1: "descent t1 key (root t1) (Inr a)"
    unfolding t1_def using descent_set_value [OF d] by simp
  have v1: "value_at t1 a = tq1"
    unfolding t1_def using value_at_set_value [OF a n] .
  from descent_hit_mapped [OF d1 refl a] obtain n1 where n1: "mem t1 a = Some n1" ..
  have d2: "descent t2 key (root t2) (Inr a)"
    unfolding t2_def using descent_set_value [OF d1] by simp
  have v2: "value_at t2 a = tq2"
    unfolding t2_def using value_at_set_value [OF a n1] .
  have inv: "\<not> IsValid tq1" by (simp add: tq1_def IsValid_def)
  have size1: "MAX_KEY_LEN t1 = MAX_KEY_LEN t" "MAX_KEY_LEN t2 = MAX_KEY_LEN t"
    by (simp_all add: t1_def t2_def)
  have "destroy t key = Some (Inr (tq, t1))"
    using size v by (simp add: destroy_def descent_destroy_loop [OF d refl a] t1_def tq1_def)
  moreover have "get t1 key = Some (Inr tq1)"
    using size size1 v1 by (simp add: get_def descent_get_loop [OF d1])
  moreover have "put t1 key v update = Some (Inr (tq1, t2))"
    using size size1 v1 inv by (simp add: put_def descent_put_loop [OF d1 a] t2_def tq2_def)
  moreover have "get t2 key = Some (Inr tq2)"
    using size size1 v2 by (simp add: get_def descent_get_loop [OF d2])
  moreover have "gptr tq2 = v" by (simp add: tq2_def)
  ultimately show ?thesis using inv by blast
qed

theorem destroy_get_put_get_witness:
  "get tree_x [0x78] = Some (Inr \<lparr>gptr = 9, tag = 0\<rparr>) \<and> IsValid \<lparr>gptr = 9, tag = 0\<rparr>
   \<and> (\<exists>t1 tq1 t2 tq2.
           destroy tree_x [0x78] = Some (Inr (\<lparr>gptr = 9, tag = 0\<rparr>, t1))
           \<and> get t1 [0x78] = Some (Inr tq1) \<and> \<not> IsValid tq1
           \<and> put t1 [0x78] 10 False = Some (Inr (tq1, t2))
           \<and> get t2 [0x78] = Some (Inr tq2) \<and> gptr tq2 = 10)"
proof -
  have valid: "IsValid \<lparr>gptr = 9, tag = 0\<rparr>" by (simp add: IsValid_def)
  from destroy_get_put_get [OF tree_x_get valid, of 10 False] tree_x_get valid
  show ?thesis by simp
qed


lemma set_value_mem:
  "mem t q = Some n \<Longrightarrow> set_value t q tq = t\<lparr>mem := (mem t)(q \<mapsto> n\<lparr>n_value := tq\<rparr>)\<rparr>"
  by (simp add: set_value_def)

lemma set_value_changes:
  assumes "mem t q = Some n" and "n_value n \<noteq> tq"
  shows "set_value t q tq \<noteq> t"
proof
  assume "set_value t q tq = t"
  then have "mem (set_value t q tq) q = mem t q" by simp
  then have "n\<lparr>n_value := tq\<rparr> = n" using assms(1) by (simp add: set_value_def)
  then have "n_value (n\<lparr>n_value := tq\<rparr>) = n_value n" by (rule arg_cong)
  then show False using assms(2) by simp
qed

text \<open>
  Claim C10. The key has a node \<open>q\<close> whose value slot holds an invalid tagged value
  \<open>tq\<close> (as \<open>getC\<close> reports): \<open>destroy\<close> returns \<open>tq\<close>, and yet the memory changes: the
  value slot of \<open>q\<close> now holds \<open>(0, tag + 1)\<close>, the addition being the one of 64-bit
  words, and nothing else is written. \<open>destroyC\<close> does the same.
\<close>

theorem destroy_of_invalid_value_bumps_tag:
  assumes "getC t key = Some (Inr (q, tq))" and "q \<noteq> 0" and "\<not> IsValid tq"
  shows "\<exists>n t'. mem t q = Some n \<and> n_value n = tq
           \<and> t' = t\<lparr>mem := (mem t)(q \<mapsto> n\<lparr>n_value := \<lparr>gptr = 0, tag = tag tq + 1\<rparr>\<rparr>)\<rparr>
           \<and> t' \<noteq> t
           \<and> destroy t key = Some (Inr (tq, t'))
           \<and> destroyC t key old_value0 = Some (Inr ((q, \<lparr>gptr = 0, tag = tag tq + 1\<rparr>, tq), t'))"
proof -
  from getC_key_size [OF assms(1)] have size: "0 < length key" "length key \<le> MAX_KEY_LEN t"
    and gl: "getC_loop t key (root t) = Some (Inr (q, tq))" by simp_all
  from getC_loop_found_descent [OF gl assms(2)]
  have d: "descent t key (root t) (Inr q)" and v: "value_at t q = tq" by simp_all
  from descent_hit_mapped [OF d refl assms(2)] obtain n where n: "mem t q = Some n" ..
  have nv: "n_value n = tq" using v value_at_mem [OF assms(2) n] by simp
  define t' where "t' = set_value t q \<lparr>gptr = 0, tag = tag tq + 1\<rparr>"
  have "t' = t\<lparr>mem := (mem t)(q \<mapsto> n\<lparr>n_value := \<lparr>gptr = 0, tag = tag tq + 1\<rparr>\<rparr>)\<rparr>"
    unfolding t'_def by (rule set_value_mem [OF n])
  moreover have "n_value n \<noteq> \<lparr>gptr = 0, tag = tag tq + 1\<rparr>"
  proof
    assume "n_value n = \<lparr>gptr = 0, tag = tag tq + 1\<rparr>"
    then have "tag tq = tag tq + 1" using nv by (metis TagGptr.select_convs(2))
    then show False by simp
  qed
  then have "t' \<noteq> t" unfolding t'_def by (rule set_value_changes [OF n])
  moreover have "destroy t key = Some (Inr (tq, t'))"
    using size v by (simp add: destroy_def descent_destroy_loop [OF d refl assms(2)] t'_def)
  moreover have "destroyC t key old_value0 = Some (Inr ((q, \<lparr>gptr = 0, tag = tag tq + 1\<rparr>, tq), t'))"
    using size v by (simp add: destroyC_def descent_destroyC_loop [OF d refl assms(2)] t'_def)
  ultimately show ?thesis using n nv by blast
qed

lemma tree_x_destroyed_getC:
  "getC tree_x_destroyed [0x78] = Some (Inr (0x20, \<lparr>gptr = 0, tag = 1\<rparr>))"
  by code_simp

theorem destroy_of_invalid_value_bumps_tag_witness:
  "getC tree_x_destroyed [0x78] = Some (Inr (0x20, \<lparr>gptr = 0, tag = 1\<rparr>))
   \<and> (0x20 :: Gptr) \<noteq> 0 \<and> \<not> IsValid \<lparr>gptr = 0, tag = 1\<rparr>
   \<and> (\<exists>n t'. mem tree_x_destroyed 0x20 = Some n \<and> n_value n = \<lparr>gptr = 0, tag = 1\<rparr>
           \<and> t' = tree_x_destroyed\<lparr>mem := (mem tree_x_destroyed)(0x20 \<mapsto> n\<lparr>n_value := \<lparr>gptr = 0, tag = 2\<rparr>\<rparr>)\<rparr>
           \<and> t' \<noteq> tree_x_destroyed
           \<and> destroy tree_x_destroyed [0x78] = Some (Inr (\<lparr>gptr = 0, tag = 1\<rparr>, t'))
           \<and> destroyC tree_x_destroyed [0x78] TagGptr0
               = Some (Inr ((0x20, \<lparr>gptr = 0, tag = 2\<rparr>, \<lparr>gptr = 0, tag = 1\<rparr>), t')))"
proof -
  have nz: "(0x20 :: Gptr) \<noteq> 0" by simp
  have inv: "\<not> IsValid \<lparr>gptr = 0, tag = 1\<rparr>" by (simp add: IsValid_def)
  from destroy_of_invalid_value_bumps_tag [OF tree_x_destroyed_getC nz inv, of TagGptr0]
    tree_x_destroyed_getC inv
  show ?thesis by simp
qed

lemma unat_next_tag: "x \<noteq> - 1 \<Longrightarrow> unat (x + 1) = unat x + 1" for x :: "64 word"
proof -
  assume "x \<noteq> - 1"
  then have "x + 1 \<noteq> 0" by (simp add: eq_neg_iff_add_eq_0)
  then have "1 + x \<noteq> 0" by (simp add: add.commute)
  from unatSuc [OF this] show ?thesis by (simp add: add.commute)
qed

text \<open>
  Claim C4, as amended. Where the key has a node \<open>q\<close> with the tagged value \<open>tq\<close>, every
  operation that stores to the value slot by a compare-and-swap (\<open>put\<close> with the update
  flag, \<open>put\<close> without it on an invalid value, \<open>destroy\<close>, both \<open>putC\<close> and both
  \<open>destroyC\<close>) succeeds on the value it observed and stores the tag \<open>tag tq + 1\<close>, the
  addition being the one of 64-bit words: the tag grows by exactly one unless the
  observed tag is the largest one.
\<close>

theorem value_cas_stores_next_tag:
  assumes "getC t key = Some (Inr (q, tq))" and "q \<noteq> 0"
  shows "\<exists>t_put t_del.
           value_at t q = tq
           \<and> value_at t_put q = \<lparr>gptr = v, tag = tag tq + 1\<rparr>
           \<and> value_at t_del q = \<lparr>gptr = 0, tag = tag tq + 1\<rparr>
           \<and> put t key v True = Some (Inr (tq, t_put))
           \<and> (\<not> IsValid tq \<longrightarrow> put t key v False = Some (Inr (tq, t_put)))
           \<and> destroy t key = Some (Inr (tq, t_del))
           \<and> putC t key v = Some (Inr ((q, \<lparr>gptr = v, tag = tag tq + 1\<rparr>, tq), t_put))
           \<and> putC_ptr t q v = Inr ((\<lparr>gptr = v, tag = tag tq + 1\<rparr>, tq), t_put)
           \<and> destroyC t key old_value0 = Some (Inr ((q, \<lparr>gptr = 0, tag = tag tq + 1\<rparr>, tq), t_del))
           \<and> destroyC_ptr t q = Inr ((\<lparr>gptr = 0, tag = tag tq + 1\<rparr>, tq), t_del)
           \<and> (tag tq \<noteq> - 1 \<longrightarrow> unat (tag tq + 1) = unat (tag tq) + 1)"
proof -
  from getC_key_size [OF assms(1)] have size: "0 < length key" "length key \<le> MAX_KEY_LEN t"
    and gl: "getC_loop t key (root t) = Some (Inr (q, tq))" by simp_all
  from getC_loop_found_descent [OF gl assms(2)]
  have d: "descent t key (root t) (Inr q)" and v: "value_at t q = tq" by simp_all
  from descent_hit_mapped [OF d refl assms(2)] obtain n where n: "mem t q = Some n" ..
  have nv: "n_value n = tq" using v value_at_mem [OF assms(2) n] by simp
  have tl: "toLocal t q = Some n" using n assms(2) by (simp add: toLocal_def)
  define t_put where "t_put = set_value t q \<lparr>gptr = v, tag = tag tq + 1\<rparr>"
  define t_del where "t_del = set_value t q \<lparr>gptr = 0, tag = tag tq + 1\<rparr>"
  have "value_at t_put q = \<lparr>gptr = v, tag = tag tq + 1\<rparr>"
    unfolding t_put_def by (rule value_at_set_value [OF assms(2) n])
  moreover have "value_at t_del q = \<lparr>gptr = 0, tag = tag tq + 1\<rparr>"
    unfolding t_del_def by (rule value_at_set_value [OF assms(2) n])
  moreover have "put t key v True = Some (Inr (tq, t_put))"
    using size v by (simp add: put_def descent_put_loop [OF d assms(2)] t_put_def)
  moreover have "\<not> IsValid tq \<longrightarrow> put t key v False = Some (Inr (tq, t_put))"
    using size v by (simp add: put_def descent_put_loop [OF d assms(2)] t_put_def)
  moreover have "destroy t key = Some (Inr (tq, t_del))"
    using size v by (simp add: destroy_def descent_destroy_loop [OF d refl assms(2)] t_del_def)
  moreover have "putC t key v = Some (Inr ((q, \<lparr>gptr = v, tag = tag tq + 1\<rparr>, tq), t_put))"
    using size v by (simp add: putC_def descent_putC_loop [OF d assms(2)] t_put_def)
  moreover have "putC_ptr t q v = Inr ((\<lparr>gptr = v, tag = tag tq + 1\<rparr>, tq), t_put)"
    using assms(2) tl nv cas_value_loop_succeeds [OF n, of v] by (simp add: putC_ptr_def t_put_def)
  moreover have "destroyC t key old_value0 = Some (Inr ((q, \<lparr>gptr = 0, tag = tag tq + 1\<rparr>, tq), t_del))"
    using size v by (simp add: destroyC_def descent_destroyC_loop [OF d refl assms(2)] t_del_def)
  moreover have "destroyC_ptr t q = Inr ((\<lparr>gptr = 0, tag = tag tq + 1\<rparr>, tq), t_del)"
    using assms(2) tl nv cas_value_loop_succeeds [OF n, of 0] by (simp add: destroyC_ptr_def t_del_def)
  moreover have "tag tq \<noteq> - 1 \<longrightarrow> unat (tag tq + 1) = unat (tag tq) + 1"
    by (simp add: unat_next_tag)
  ultimately show ?thesis using v by blast
qed

lemma tree_x_getC: "getC tree_x [0x78] = Some (Inr (0x20, \<lparr>gptr = 9, tag = 0\<rparr>))"
  by code_simp

theorem value_cas_stores_next_tag_witness:
  "getC tree_x [0x78] = Some (Inr (0x20, \<lparr>gptr = 9, tag = 0\<rparr>)) \<and> (0x20 :: Gptr) \<noteq> 0
   \<and> (\<exists>t_put t_del.
           value_at tree_x 0x20 = \<lparr>gptr = 9, tag = 0\<rparr>
           \<and> value_at t_put 0x20 = \<lparr>gptr = 7, tag = 1\<rparr>
           \<and> value_at t_del 0x20 = \<lparr>gptr = 0, tag = 1\<rparr>
           \<and> put tree_x [0x78] 7 True = Some (Inr (\<lparr>gptr = 9, tag = 0\<rparr>, t_put))
           \<and> destroy tree_x [0x78] = Some (Inr (\<lparr>gptr = 9, tag = 0\<rparr>, t_del))
           \<and> putC tree_x [0x78] 7 = Some (Inr ((0x20, \<lparr>gptr = 7, tag = 1\<rparr>, \<lparr>gptr = 9, tag = 0\<rparr>), t_put))
           \<and> putC_ptr tree_x 0x20 7 = Inr ((\<lparr>gptr = 7, tag = 1\<rparr>, \<lparr>gptr = 9, tag = 0\<rparr>), t_put)
           \<and> destroyC tree_x [0x78] TagGptr0
               = Some (Inr ((0x20, \<lparr>gptr = 0, tag = 1\<rparr>, \<lparr>gptr = 9, tag = 0\<rparr>), t_del))
           \<and> destroyC_ptr tree_x 0x20 = Inr ((\<lparr>gptr = 0, tag = 1\<rparr>, \<lparr>gptr = 9, tag = 0\<rparr>), t_del)
           \<and> unat (tag \<lparr>gptr = 9, tag = 0\<rparr> + 1) = unat (tag \<lparr>gptr = 9, tag = 0 :: 64 word\<rparr>) + 1)"
proof -
  have nz: "(0x20 :: Gptr) \<noteq> 0" by simp
  from value_cas_stores_next_tag [OF tree_x_getC nz, of 7 TagGptr0]
  obtain t_put t_del where
    "value_at tree_x 0x20 = \<lparr>gptr = 9, tag = 0\<rparr>"
    "value_at t_put 0x20 = \<lparr>gptr = 7, tag = 1\<rparr>"
    "value_at t_del 0x20 = \<lparr>gptr = 0, tag = 1\<rparr>"
    "put tree_x [0x78] 7 True = Some (Inr (\<lparr>gptr = 9, tag = 0\<rparr>, t_put))"
    "destroy tree_x [0x78] = Some (Inr (\<lparr>gptr = 9, tag = 0\<rparr>, t_del))"
    "putC tree_x [0x78] 7 = Some (Inr ((0x20, \<lparr>gptr = 7, tag = 1\<rparr>, \<lparr>gptr = 9, tag = 0\<rparr>), t_put))"
    "putC_ptr tree_x 0x20 7 = Inr ((\<lparr>gptr = 7, tag = 1\<rparr>, \<lparr>gptr = 9, tag = 0\<rparr>), t_put)"
    "destroyC tree_x [0x78] TagGptr0
       = Some (Inr ((0x20, \<lparr>gptr = 0, tag = 1\<rparr>, \<lparr>gptr = 9, tag = 0\<rparr>), t_del))"
    "destroyC_ptr tree_x 0x20 = Inr ((\<lparr>gptr = 0, tag = 1\<rparr>, \<lparr>gptr = 9, tag = 0\<rparr>), t_del)"
    by auto
  then show ?thesis using tree_x_getC by auto
qed

text \<open>
  The claim C4 as stated fails where the observed tag is the largest 64-bit value: on the
  node "A" of \<open>tree_max_tag\<close>, \<open>destroy\<close> observes the tag \<open>2^64 - 1\<close> and stores the tag
  0, which is smaller.
\<close>

theorem tag_wraps_at_largest_value:
  "(case destroy tree_max_tag [0x41] of
      Some (Inr (old, t')) \<Rightarrow>
        old = \<lparr>gptr = 5, tag = 0xFFFFFFFFFFFFFFFF\<rparr>
        \<and> value_at t' 0x20 = \<lparr>gptr = 0, tag = 0\<rparr>
        \<and> tag (value_at t' 0x20) < tag old
    | _ \<Rightarrow> False)"
  by code_simp

section \<open>A heap that cannot allocate\<close>

lemma alloc_retry_state: "\<exists>as. snd (alloc_retry cnt ptr t) = t\<lparr>allocs := as\<rparr>"
proof (induction cnt ptr t rule: alloc_retry.induct)
  case (1 cnt ptr t)
  show ?case
  proof (cases "ptr = 0 \<and> 0 < cnt")
    case False
    then have "alloc_retry cnt ptr t = (ptr, t)"
      by (subst alloc_retry.simps) (simp only: if_False)
    moreover have "t = t\<lparr>allocs := allocs t\<rparr>" by simp
    ultimately show ?thesis by (metis snd_conv)
  next
    case True
    obtain a t' where al: "Alloc t = (a, t')" by (cases "Alloc t")
    have "\<exists>as0. t' = t\<lparr>allocs := as0\<rparr>"
    proof (cases "allocs t")
      case Nil
      with al have "t' = t" by (simp add: Alloc_def)
      then have "t' = t\<lparr>allocs := allocs t\<rparr>" by simp
      then show ?thesis ..
    next
      case (Cons x xs)
      with al have "t' = t\<lparr>allocs := xs\<rparr>" by (simp add: Alloc_def)
      then show ?thesis ..
    qed
    then obtain as0 where t': "t' = t\<lparr>allocs := as0\<rparr>" ..
    from 1 [OF True al [symmetric]] obtain as where
      "snd (alloc_retry (cnt - 1) a t') = t'\<lparr>allocs := as\<rparr>" by blast
    moreover have "alloc_retry cnt ptr t = alloc_retry (cnt - 1) a t'"
      using True al by (subst alloc_retry.simps) simp
    ultimately have "snd (alloc_retry cnt ptr t) = t\<lparr>allocs := as\<rparr>" using t' by simp
    then show ?thesis ..
  qed
qed

lemma alloc_retry_fails:
  "ptr = 0 \<Longrightarrow> \<forall>a \<in> set (take (nat cnt) (allocs t)). a = 0 \<Longrightarrow> fst (alloc_retry cnt ptr t) = 0"
proof (induction cnt ptr t rule: alloc_retry.induct)
  case (1 cnt ptr t)
  show ?case
  proof (cases "0 < cnt")
    case False
    with 1(2) show ?thesis by (subst alloc_retry.simps) simp
  next
    case True
    then have nat_cnt: "nat cnt = Suc (nat (cnt - 1))" by simp
    show ?thesis
    proof (cases "allocs t")
      case Nil
      then have al: "Alloc t = (0, t)" by (simp add: Alloc_def)
      have "fst (alloc_retry (cnt - 1) 0 t) = 0"
        using 1(1) [of 0 t] 1(2) True al Nil by simp
      with True 1(2) al show ?thesis by (subst alloc_retry.simps) simp
    next
      case (Cons a as)
      then have al: "Alloc t = (a, t\<lparr>allocs := as\<rparr>)" by (simp add: Alloc_def)
      from 1(3) Cons nat_cnt have a0: "a = 0" and rest: "\<forall>b \<in> set (take (nat (cnt - 1)) as). b = 0"
        by simp_all
      have "fst (alloc_retry (cnt - 1) a (t\<lparr>allocs := as\<rparr>)) = 0"
        using 1(1) [of a "t\<lparr>allocs := as\<rparr>"] 1(2) True al a0 rest by simp
      with True 1(2) al show ?thesis by (subst alloc_retry.simps) simp
    qed
  qed
qed

lemma alloc_new_leaf_fails:
  "alloc_fails t \<Longrightarrow>
   alloc_new_leaf t key v = Inl (if NDEBUG t then Null_pointer else Assert_alloc)"
  using alloc_retry_fails [of 0 "alloc_retry_cnt t" t]
  by (cases "alloc_retry (alloc_retry_cnt t) 0 t")
     (simp add: alloc_new_leaf_def alloc_fails_def toLocal_def)

lemma alloc_intermediate_fails:
  "alloc_fails t \<Longrightarrow>
   alloc_intermediate t key = Inl (if NDEBUG t then Null_pointer else Assert_alloc)"
  using alloc_retry_fails [of 0 "alloc_retry_cnt t" t]
  by (cases "alloc_retry (alloc_retry_cnt t) 0 t")
     (simp add: alloc_intermediate_def alloc_fails_def toLocal_def)

lemma alloc_intermediate_build:
  assumes "alloc_intermediate t key = Inr (a, t')"
  shows "NDEBUG t' = NDEBUG t"
proof -
  obtain ptr t1 where ar: "alloc_retry (alloc_retry_cnt t) 0 t = (ptr, t1)"
    by (cases "alloc_retry (alloc_retry_cnt t) 0 t")
  from alloc_retry_state [of "alloc_retry_cnt t" 0 t] ar obtain as where "t1 = t\<lparr>allocs := as\<rparr>"
    by auto
  then have "NDEBUG t1 = NDEBUG t" by simp
  with assms ar show ?thesis
    by (auto simp: alloc_intermediate_def split: if_splits option.splits)
qed

text \<open>
  With no scratch node in hand, the inner loop of \<open>put\<close> is left towards case 1 or
  case 2 with the memory as it was.
\<close>

lemma put_descend_continue:
  assumes "put_descend t key v u nl im p q ps ex = Some y"
  shows "nl = 0 \<longrightarrow> im = 0 \<longrightarrow> y = Inr (Continue p' q' ps' ex', t') \<longrightarrow> t' = t"
proof (induction t key v u nl im p q ps ex y rule: put_descend.raw_induct)
  case (1 f t key v u nl im p q ps ex y)
  define t2 where "t2 = (if nl \<noteq> 0 then Free (if im \<noteq> 0 then Free t im else t) nl
                         else (if im \<noteq> 0 then Free t im else t))"
  show ?case
  proof (cases "q = 0")
    case True
    with 1(2) show ?thesis by auto
  next
    case nz: False
    show ?thesis
    proof (cases "toLocal t q")
      case None
      with nz 1(2) show ?thesis by auto
    next
      case (Some n)
      then have mq: "mem t q = Some n" using nz by (simp add: toLocal_def)
      show ?thesis
      proof (cases "first_mismatch key (n_key n) (min (length key) (n_prefix_size n)) 0")
        case (Inl e)
        with nz Some 1(2) show ?thesis by auto
      next
        case (Inr i)
        consider (split) "i < n_prefix_size n"
          | (assert) "\<not> i < n_prefix_size n" "\<not> u \<and> i \<noteq> n_prefix_size n"
          | (hit) "\<not> i < n_prefix_size n" "\<not> (\<not> u \<and> i \<noteq> n_prefix_size n)" "length key = i"
          | (oob) "\<not> i < n_prefix_size n" "\<not> (\<not> u \<and> i \<noteq> n_prefix_size n)" "length key \<noteq> i"
              "length key \<le> i"
          | (down) "\<not> i < n_prefix_size n" "\<not> (\<not> u \<and> i \<noteq> n_prefix_size n)" "length key \<noteq> i"
              "\<not> length key \<le> i"
          by blast
        then show ?thesis
        proof cases
          case split
          with nz Some Inr 1(2) show ?thesis by (auto split: if_splits)
        next
          case assert
          with nz Some Inr 1(2) show ?thesis by auto
        next
          case hit
          with nz Some Inr 1(2) have body2:
            "(if u then
                (case cas_value_loop t2 q (n_value n) v of
                   Inl e \<Rightarrow> Some (Inl e)
                 | Inr (old, new, t3) \<Rightarrow> Some (Inr (Return old, t3)))
              else if IsValid (n_value n) then Some (Inr (Return (n_value n), t2))
              else
                (case casTagGptr t2 q (n_value n) \<lparr>gptr = v, tag = tag (n_value n) + 1\<rparr> of
                   Inl e \<Rightarrow> Some (Inl e)
                 | Inr (seen_tq, t3) \<Rightarrow>
                     if seen_tq = n_value n then Some (Inr (Return (n_value n), t3))
                     else Some (Inr (Continue p q ps ex, t3)))) = Some y"
            unfolding t2_def by (simp add: Let_def split del: if_split)
          show ?thesis
          proof (intro impI)
            assume nl0: "nl = 0" and im0: "im = 0" and yc: "y = Inr (Continue p' q' ps' ex', t')"
            have "t2 = t" using nl0 im0 by (simp add: t2_def)
            note body = body2 [unfolded this]
            have cas: "casTagGptr t q (n_value n) \<lparr>gptr = v, tag = tag (n_value n) + 1\<rparr>
                = Inr (n_value n, set_value t q \<lparr>gptr = v, tag = tag (n_value n) + 1\<rparr>)"
              using mq by (simp add: casTagGptr_def set_value_def)
            show "t' = t"
            proof (cases u)
              case True
              with body yc show ?thesis
                by (cases "cas_value_loop t q (n_value n) v") auto
            next
              case False
              with body yc cas show ?thesis by (simp split: if_splits)
            qed
          qed
        next
          case oob
          with nz Some Inr 1(2) show ?thesis by auto
        next
          case down
          with nz Some Inr 1(2) have
            "f t key v u nl im (Some (q, key ! i)) (n_child n (key ! i)) ps ex = Some y"
            by simp
          from 1(1) [OF this] show ?thesis .
        qed
      qed
    qed
  qed
qed (fact assms)

text \<open>
  Claim C8, as amended. The inner loop of \<open>put\<close> is left towards case 1 or case 2, where
  a node is allocated, and \<open>Alloc\<close> returns 0 on every call of the retry loop: at the
  first allocation (the leaf of case 1, the intermediate node of case 2), or at the
  allocation of the leaf of case 2 after the intermediate node was allocated. In a build
  with the assertions compiled in, the \<open>assert\<close> after the retry loop stops the program
  before the null pointer is used (\<open>Assert_alloc\<close>); compiled out, \<open>put\<close> goes on
  with the null pointer up to the write through it (\<open>Null_pointer\<close>). In neither build
  does \<open>put\<close> return to its caller.
\<close>

theorem put_fails_when_alloc_fails:
  assumes "0 < length key" and "length key \<le> MAX_KEY_LEN t"
    and "map_option (map_sum id fst) (put_descend t key v update 0 0 None (root t) 0 0)
           = Some (Inr (Continue p q prefix_size existing))"
    and "alloc_fails t
         \<or> (q \<noteq> 0 \<and> prefix_size \<noteq> length key
            \<and> (case alloc_intermediate t key of Inl e \<Rightarrow> False | Inr (a, t1) \<Rightarrow> alloc_fails t1))"
  shows "put t key v update = Some (Inl (if NDEBUG t then Null_pointer else Assert_alloc))"
proof -
  from assms(3) obtain t1 where
    pd0: "put_descend t key v update 0 0 None (root t) 0 0
           = Some (Inr (Continue p q prefix_size existing, t1))"
    by (cases "put_descend t key v update 0 0 None (root t) 0 0") (auto simp: map_sum_def split: sum.splits)
  from put_descend_continue [OF pd0] have "t1 = t" by simp
  with pd0 have pd: "put_descend t key v update 0 0 None (root t) 0 0
           = Some (Inr (Continue p q prefix_size existing, t))" by simp
  have "put_loop t key v update 0 0 None (root t) 0 0
          = Some (Inl (if NDEBUG t then Null_pointer else Assert_alloc))"
    using assms(4)
  proof
    assume fail: "alloc_fails t"
    show ?thesis
      apply (subst put_loop.simps)
      apply (subst pd)
      apply (simp add: alloc_new_leaf_fails [OF fail] alloc_intermediate_fails [OF fail])
      done
  next
    assume second: "q \<noteq> 0 \<and> prefix_size \<noteq> length key
            \<and> (case alloc_intermediate t key of Inl e \<Rightarrow> False | Inr (a, t1) \<Rightarrow> alloc_fails t1)"
    then obtain a t2 where ai: "alloc_intermediate t key = Inr (a, t2)" and fail: "alloc_fails t2"
      by (cases "alloc_intermediate t key") auto
    from alloc_intermediate_build [OF ai] have nd: "NDEBUG t2 = NDEBUG t" .
    from second have nz: "q \<noteq> 0" and ne: "prefix_size \<noteq> length key" by simp_all
    show ?thesis
      apply (subst put_loop.simps)
      apply (subst pd)
      apply (simp add: nz ne ai alloc_new_leaf_fails [OF fail] nd)
      done
  qed
  with assms(1,2) show ?thesis by (simp add: put_def)
qed

lemma tree_x_heap_exhausted_descend:
  "map_option (map_sum id fst) (put_descend tree_x_heap_exhausted [0x79] 5 True 0 0 None
       (root tree_x_heap_exhausted) 0 0)
     = Some (Inr (Continue (Some (0x10, 0x79)) 0 0 0))"
  by code_simp

lemma tree_x_heap_exhausted_size:
  "0 < length [0x79 :: byte] \<and> length [0x79 :: byte] \<le> MAX_KEY_LEN tree_x_heap_exhausted"
  by code_simp

lemma tree_x_heap_exhausted_allocs: "alloc_fails tree_x_heap_exhausted"
  by code_simp

lemma tree_x_heap_exhausted_build: "\<not> NDEBUG tree_x_heap_exhausted"
  by code_simp

lemma tree_ab_one_block_descend:
  "map_option (map_sum id fst) (put_descend tree_ab_one_block [0x41, 0x43] 5 True 0 0 None
       (root tree_ab_one_block) 0 0)
     = Some (Inr (Continue (Some (0x10, 0x41)) 0x20 1 0x42))"
  by code_simp

lemma tree_ab_one_block_size:
  "0 < length [0x41, 0x43 :: byte] \<and> length [0x41, 0x43 :: byte] \<le> MAX_KEY_LEN tree_ab_one_block"
  by code_simp

lemma tree_ab_one_block_allocs:
  "\<not> alloc_fails tree_ab_one_block \<and> (0x20 :: Gptr) \<noteq> 0 \<and> (1 :: nat) \<noteq> length [0x41, 0x43 :: byte]
   \<and> (case alloc_intermediate tree_ab_one_block [0x41, 0x43] of
         Inl e \<Rightarrow> False | Inr (a, t1) \<Rightarrow> a = 0x30 \<and> alloc_fails t1)"
  by code_simp

lemma tree_ab_one_block_build: "\<not> NDEBUG tree_ab_one_block"
  by code_simp

theorem put_fails_when_alloc_fails_witness:
  "put tree_x_heap_exhausted [0x79] 5 True = Some (Inl Assert_alloc)
   \<and> put tree_ab_one_block [0x41, 0x43] 5 True = Some (Inl Assert_alloc)"
proof -
  have second: "alloc_fails tree_ab_one_block
         \<or> ((0x20 :: Gptr) \<noteq> 0 \<and> (1 :: nat) \<noteq> length [0x41, 0x43 :: byte]
            \<and> (case alloc_intermediate tree_ab_one_block [0x41, 0x43] of
                  Inl e \<Rightarrow> False | Inr (a, t1) \<Rightarrow> alloc_fails t1))"
    using tree_ab_one_block_allocs
    by (cases "alloc_intermediate tree_ab_one_block [0x41, 0x43]") auto
  from put_fails_when_alloc_fails [OF _ _ tree_x_heap_exhausted_descend disjI1,
      OF _ _ tree_x_heap_exhausted_allocs]
    put_fails_when_alloc_fails [OF _ _ tree_ab_one_block_descend second]
    tree_x_heap_exhausted_size tree_ab_one_block_size
    tree_x_heap_exhausted_build tree_ab_one_block_build
  show ?thesis by simp
qed

text \<open>
  The claim C8 as stated fails in a build with \<open>NDEBUG\<close>: on the tree with the key "x"
  and a heap whose \<open>Alloc\<close> returns 0 on every retry, the \<open>put\<close> of the new key "y"
  goes on with the null pointer; it stops at the write through it, not at an allocation
  error.
\<close>

theorem put_goes_on_with_null_pointer:
  "alloc_fails (tree_x_heap_exhausted\<lparr>NDEBUG := True\<rparr>)
   \<and> put (tree_x_heap_exhausted\<lparr>NDEBUG := True\<rparr>) [0x79] 5 True = Some (Inl Null_pointer)
   \<and> put (tree_x_heap_exhausted\<lparr>NDEBUG := True\<rparr>) [0x79] 5 True \<noteq> Some (Inl Assert_alloc)"
  by code_simp

section \<open>A put is found by the following get\<close>

lemma first_mismatch_result:
  "i0 \<le> m \<Longrightarrow> m \<le> length key \<Longrightarrow> m \<le> length nkey \<Longrightarrow>
   \<exists>i. first_mismatch key nkey m i0 = Inr i \<and> i0 \<le> i \<and> i \<le> m
       \<and> (\<forall>j. i0 \<le> j \<and> j < i \<longrightarrow> key ! j = nkey ! j)
       \<and> (i < m \<longrightarrow> key ! i \<noteq> nkey ! i)"
proof (induction key nkey m i0 rule: first_mismatch.induct)
  case (1 key nkey max_i i)
  show ?case
  proof (cases "i < max_i")
    case False
    with 1(2) show ?thesis by (subst first_mismatch.simps) auto
  next
    case True
    show ?thesis
    proof (cases "key ! i = nkey ! i")
      case False
      with True 1(3,4) show ?thesis by (subst first_mismatch.simps) auto
    next
      case eq: True
      from True 1(3,4) have guards: "\<not> length key \<le> i" "\<not> length nkey \<le> i" by simp_all
      from 1(1) [OF True guards] eq True 1(3,4)
      obtain i' where r: "first_mismatch key nkey max_i (Suc i) = Inr i'" "Suc i \<le> i'" "i' \<le> max_i"
        "\<forall>j. Suc i \<le> j \<and> j < i' \<longrightarrow> key ! j = nkey ! j" "i' < max_i \<longrightarrow> key ! i' \<noteq> nkey ! i'"
        by auto
      have all: "\<forall>j. i \<le> j \<and> j < i' \<longrightarrow> key ! j = nkey ! j"
      proof (intro allI impI)
        fix j assume j: "i \<le> j \<and> j < i'"
        show "key ! j = nkey ! j"
        proof (cases "j = i")
          case True
          with eq show ?thesis by simp
        next
          case False
          with j r(4) show ?thesis by simp
        qed
      qed
      have "first_mismatch key nkey max_i i = Inr i'"
        using True guards eq r(1) by (subst first_mismatch.simps) simp
      with r all show ?thesis by auto
    qed
  qed
qed

lemma take_eq_of_nth:
  assumes "m \<le> length xs" "m \<le> length ys" "\<forall>j. j < m \<longrightarrow> xs ! j = ys ! j"
  shows "take m xs = take m ys"
  using assms by (intro nth_equalityI) simp_all

text \<open>A retry loop reads and writes nothing of the state but the heap.\<close>

lemma alloc_retry_fields:
  assumes "alloc_retry cnt ptr t = (a, t1)"
  shows "mem t1 = mem t" "root t1 = root t" "MAX_KEY_LEN t1 = MAX_KEY_LEN t"
    "alloc_retry_cnt t1 = alloc_retry_cnt t" "NDEBUG t1 = NDEBUG t"
proof -
  from alloc_retry_state [of cnt ptr t] assms obtain as where "t1 = t\<lparr>allocs := as\<rparr>" by auto
  then show "mem t1 = mem t" "root t1 = root t" "MAX_KEY_LEN t1 = MAX_KEY_LEN t"
    "alloc_retry_cnt t1 = alloc_retry_cnt t" "NDEBUG t1 = NDEBUG t"
    by simp_all
qed

lemma alloc_retry_mem:
  "alloc_retry cnt ptr (t\<lparr>mem := m\<rparr>) = (case alloc_retry cnt ptr t of (a, t') \<Rightarrow> (a, t'\<lparr>mem := m\<rparr>))"
proof (induction cnt ptr t rule: alloc_retry.induct)
  case (1 cnt ptr t)
  show ?case
  proof (cases "ptr = 0 \<and> 0 < cnt")
    case False
    then have "alloc_retry cnt ptr t = (ptr, t)"
      by (subst alloc_retry.simps) (simp only: if_False)
    moreover from False have "alloc_retry cnt ptr (t\<lparr>mem := m\<rparr>) = (ptr, t\<lparr>mem := m\<rparr>)"
      by (subst alloc_retry.simps) (simp only: if_False)
    ultimately show ?thesis by simp
  next
    case True
    obtain a t' where al: "Alloc t = (a, t')" by (cases "Alloc t")
    then have al': "Alloc (t\<lparr>mem := m\<rparr>) = (a, t'\<lparr>mem := m\<rparr>)"
      by (cases "allocs t") (auto simp: Alloc_def)
    have "alloc_retry cnt ptr t = alloc_retry (cnt - 1) a t'"
      using True al by (subst alloc_retry.simps) simp
    moreover have "alloc_retry cnt ptr (t\<lparr>mem := m\<rparr>) = alloc_retry (cnt - 1) a (t'\<lparr>mem := m\<rparr>)"
      using True al' by (subst alloc_retry.simps) simp
    moreover note 1 [OF True al [symmetric]]
    ultimately show ?thesis by simp
  qed
qed

lemma alloc_new_leaf_ok:
  assumes "alloc_retry (alloc_retry_cnt t) 0 t = (a, t1)" "a \<noteq> 0" "mem t a = Some blk"
    and "length key \<le> length (n_key blk)"
  shows "alloc_new_leaf t key v =
           Inr (a, t1\<lparr>mem := (mem t)(a \<mapsto> blk\<lparr>n_key := key @ drop (length key) (n_key blk),
                                               n_prefix_size := length key,
                                               n_value := \<lparr>gptr = v, tag = 0\<rparr>\<rparr>)\<rparr>)"
  using assms alloc_retry_fields(1) [OF assms(1)]
  by (simp add: alloc_new_leaf_def toLocal_def)

lemma alloc_intermediate_ok:
  assumes "alloc_retry (alloc_retry_cnt t) 0 t = (a, t1)" "a \<noteq> 0" "mem t a = Some blk"
    and "length key \<le> length (n_key blk)"
  shows "alloc_intermediate t key =
           Inr (a, t1\<lparr>mem := (mem t)(a \<mapsto> blk\<lparr>n_key := key @ drop (length key) (n_key blk),
                                               n_child := (\<lambda>_. 0)\<rparr>)\<rparr>)"
  using assms alloc_retry_fields(1) [OF assms(1)]
  by (simp add: alloc_intermediate_def toLocal_def)

lemma heap_servesD:
  assumes "heap_serves N t (Suc k)"
  shows "\<exists>a1 t1 blk1. alloc_retry (alloc_retry_cnt t) 0 t = (a1, t1) \<and> a1 \<noteq> 0 \<and> a1 \<notin> N
           \<and> mem t a1 = Some blk1 \<and> length (n_key blk1) = MAX_KEY_LEN t
           \<and> heap_serves (insert a1 N) t1 k"
proof -
  obtain a1 t1 where ar: "alloc_retry (alloc_retry_cnt t) 0 t = (a1, t1)"
    by (cases "alloc_retry (alloc_retry_cnt t) 0 t")
  with assms have fb: "free_block N t a1" and rest: "heap_serves (insert a1 N) t1 k" by simp_all
  from fb obtain blk1 where "a1 \<noteq> 0" "a1 \<notin> N" "mem t a1 = Some blk1"
    "length (n_key blk1) = MAX_KEY_LEN t"
    by (auto simp: free_block_def split: option.splits)
  with ar rest show ?thesis by blast
qed



lemma put_descend_null:
  "put_descend t key v u nl im p 0 ps ex = Some (Inr (Continue p 0 ps ex, t))"
  by (subst put_descend.simps) simp

lemma put_descend_split:
  assumes "q \<noteq> 0" "mem t q = Some n"
    and "first_mismatch key (n_key n) (min (length key) (n_prefix_size n)) 0 = Inr i"
    and "i < n_prefix_size n" "i < length (n_key n)"
  shows "put_descend t key v u nl im p q ps ex = Some (Inr (Continue p q i (n_key n ! i), t))"
proof -
  have tl: "toLocal t q = Some n" using assms(1,2) by (simp add: toLocal_def)
  show ?thesis using assms(1,3,4,5) tl by (subst put_descend.simps) simp
qed

lemma cas64_ok:
  "mem t a = Some na \<Longrightarrow> n_child na b = old \<Longrightarrow>
   cas64 t (Some (a, b)) old new =
     Inr (old, t\<lparr>mem := (mem t)(a \<mapsto> na\<lparr>n_child := (n_child na)(b := new)\<rparr>)\<rparr>)"
  by (simp add: cas64_def)

lemma put_loop_new_leaf:
  assumes "alloc_retry (alloc_retry_cnt t) 0 t = (a1, t1)" "a1 \<noteq> 0" "mem t a1 = Some blk"
    and "length key \<le> length (n_key blk)"
    and "mem t a = Some na" "n_child na b = 0" "a \<noteq> a1"
  shows "\<exists>t'. put_loop t key v u 0 0 (Some (a, b)) 0 ps ex = Some (Inr (TagGptr0, t'))
           \<and> root t' = root t \<and> MAX_KEY_LEN t' = MAX_KEY_LEN t
           \<and> mem t' = (mem t)
                (a1 \<mapsto> blk\<lparr>n_key := key @ drop (length key) (n_key blk),
                           n_prefix_size := length key, n_value := \<lparr>gptr = v, tag = 0\<rparr>\<rparr>,
                 a \<mapsto> na\<lparr>n_child := (n_child na)(b := a1)\<rparr>)"
proof -
  define leaf where "leaf = blk\<lparr>n_key := key @ drop (length key) (n_key blk),
                           n_prefix_size := length key, n_value := \<lparr>gptr = v, tag = 0\<rparr>\<rparr>"
  define t2 where "t2 = t1\<lparr>mem := (mem t)(a1 \<mapsto> leaf)\<rparr>"
  define t3 where "t3 = t2\<lparr>mem := (mem t2)(a \<mapsto> na\<lparr>n_child := (n_child na)(b := a1)\<rparr>)\<rparr>"
  note heap = alloc_retry_fields [OF assms(1)]
  have al: "alloc_new_leaf t key v = Inr (a1, t2)"
    unfolding t2_def leaf_def by (rule alloc_new_leaf_ok [OF assms(1-4)])
  have "mem t2 a = Some na" using assms(5,7) by (simp add: t2_def)
  from cas64_ok [OF this assms(6), of a1] have cas: "cas64 t2 (Some (a, b)) 0 a1 = Inr (0, t3)"
    by (simp add: t3_def)
  have "put_loop t key v u 0 0 (Some (a, b)) 0 ps ex = Some (Inr (TagGptr0, t3))"
    apply (subst put_loop.simps)
    apply (subst put_descend_null)
    apply (simp add: al cas)
    done
  moreover have "root t3 = root t" "MAX_KEY_LEN t3 = MAX_KEY_LEN t"
    by (simp_all add: t3_def t2_def heap)
  moreover have "mem t3 = (mem t)(a1 \<mapsto> leaf, a \<mapsto> na\<lparr>n_child := (n_child na)(b := a1)\<rparr>)"
    by (simp add: t3_def t2_def)
  ultimately show ?thesis unfolding leaf_def by blast
qed

lemma put_loop_split_value:
  assumes "alloc_retry (alloc_retry_cnt t) 0 t = (a1, t1)" "a1 \<noteq> 0" "mem t a1 = Some blk"
    and "length key \<le> length (n_key blk)"
    and "q \<noteq> 0" "mem t q = Some n"
    and "first_mismatch key (n_key n) (min (length key) (n_prefix_size n)) 0 = Inr i"
    and "i < n_prefix_size n" "i < length (n_key n)" "i = length key"
    and "mem t a = Some na" "n_child na b = q" "a \<noteq> a1"
  shows "\<exists>t'. put_loop t key v u 0 0 (Some (a, b)) q ps ex = Some (Inr (TagGptr0, t'))
           \<and> root t' = root t \<and> MAX_KEY_LEN t' = MAX_KEY_LEN t
           \<and> mem t' = (mem t)
                (a1 \<mapsto> \<lparr>n_key = key @ drop (length key) (n_key blk), n_prefix_size = i,
                        n_child = (\<lambda>_. 0)(n_key n ! i := q), n_value = \<lparr>gptr = v, tag = 0\<rparr>\<rparr>,
                 a \<mapsto> na\<lparr>n_child := (n_child na)(b := a1)\<rparr>)"
proof -
  define blk1 where "blk1 = blk\<lparr>n_key := key @ drop (length key) (n_key blk), n_child := (\<lambda>_. 0)\<rparr>"
  define inter :: Node where "inter = \<lparr>n_key = key @ drop (length key) (n_key blk), n_prefix_size = i,
                        n_child = (\<lambda>_. 0)(n_key n ! i := q), n_value = \<lparr>gptr = v, tag = 0\<rparr>\<rparr>"
  define t2 where "t2 = t1\<lparr>mem := (mem t)(a1 \<mapsto> blk1)\<rparr>"
  define t3 where "t3 = t2\<lparr>mem := (mem t2)(a1 \<mapsto> inter)\<rparr>"
  define t4 where "t4 = t3\<lparr>mem := (mem t3)(a \<mapsto> na\<lparr>n_child := (n_child na)(b := a1)\<rparr>)\<rparr>"
  note heap = alloc_retry_fields [OF assms(1)]
  have pd: "put_descend t key v u 0 0 (Some (a, b)) q ps ex
              = Some (Inr (Continue (Some (a, b)) q i (n_key n ! i), t))"
    by (rule put_descend_split [OF assms(5-9)])
  have al: "alloc_intermediate t key = Inr (a1, t2)"
    unfolding t2_def blk1_def by (rule alloc_intermediate_ok [OF assms(1-4)])
  have "link_value v i (n_key n ! i) q blk1 = inter"
    by (simp add: link_value_def blk1_def inter_def)
  then have md: "modify_node t2 a1 (link_value v i (n_key n ! i) q) = Inr t3"
    by (simp add: modify_node_def t2_def t3_def)
  have "mem t3 a = Some na" using assms(11,13) by (simp add: t3_def t2_def)
  from cas64_ok [OF this assms(12), of a1] have cas: "cas64 t3 (Some (a, b)) q a1 = Inr (q, t4)"
    by (simp add: t4_def)
  have "put_loop t key v u 0 0 (Some (a, b)) q ps ex = Some (Inr (TagGptr0, t4))"
    apply (subst put_loop.simps)
    apply (subst pd)
    apply (simp add: al md cas assms(5) assms(10) [symmetric])
    done
  moreover have "root t4 = root t" "MAX_KEY_LEN t4 = MAX_KEY_LEN t"
    by (simp_all add: t4_def t3_def t2_def heap)
  moreover have "mem t4 = (mem t)(a1 \<mapsto> inter, a \<mapsto> na\<lparr>n_child := (n_child na)(b := a1)\<rparr>)"
    by (simp add: t4_def t3_def t2_def)
  ultimately show ?thesis unfolding inter_def by blast
qed

lemma put_loop_split_leaf:
  assumes "alloc_retry (alloc_retry_cnt t) 0 t = (a1, t1)" "a1 \<noteq> 0" "mem t a1 = Some blk1"
    and "length key \<le> length (n_key blk1)"
    and "alloc_retry (alloc_retry_cnt t1) 0 t1 = (a2, t1')"
    and "a2 \<noteq> 0" "mem t a2 = Some blk2" "length key \<le> length (n_key blk2)" "a1 \<noteq> a2"
    and "q \<noteq> 0" "mem t q = Some n"
    and "first_mismatch key (n_key n) (min (length key) (n_prefix_size n)) 0 = Inr i"
    and "i < n_prefix_size n" "i < length (n_key n)" "i < length key"
    and "mem t a = Some na" "n_child na b = q" "a \<noteq> a1" "a \<noteq> a2"
  shows "\<exists>t'. put_loop t key v u 0 0 (Some (a, b)) q ps ex = Some (Inr (TagGptr0, t'))
           \<and> root t' = root t \<and> MAX_KEY_LEN t' = MAX_KEY_LEN t
           \<and> mem t' = (mem t)
                (a1 \<mapsto> blk1\<lparr>n_key := key @ drop (length key) (n_key blk1), n_prefix_size := i,
                        n_child := ((\<lambda>_. 0)(key ! i := a2))(n_key n ! i := q)\<rparr>,
                 a2 \<mapsto> blk2\<lparr>n_key := key @ drop (length key) (n_key blk2),
                           n_prefix_size := length key, n_value := \<lparr>gptr = v, tag = 0\<rparr>\<rparr>,
                 a \<mapsto> na\<lparr>n_child := (n_child na)(b := a1)\<rparr>)"
proof -
  define b1 where "b1 = blk1\<lparr>n_key := key @ drop (length key) (n_key blk1), n_child := (\<lambda>_. 0)\<rparr>"
  define inter where "inter = blk1\<lparr>n_key := key @ drop (length key) (n_key blk1), n_prefix_size := i,
                        n_child := ((\<lambda>_. 0)(key ! i := a2))(n_key n ! i := q)\<rparr>"
  define leaf where "leaf = blk2\<lparr>n_key := key @ drop (length key) (n_key blk2),
                           n_prefix_size := length key, n_value := \<lparr>gptr = v, tag = 0\<rparr>\<rparr>"
  define t2 where "t2 = t1\<lparr>mem := (mem t)(a1 \<mapsto> b1)\<rparr>"
  define t3 where "t3 = t1'\<lparr>mem := (mem t2)(a2 \<mapsto> leaf)\<rparr>"
  define t4 where "t4 = t3\<lparr>mem := (mem t3)(a1 \<mapsto> inter)\<rparr>"
  define t5 where "t5 = t4\<lparr>mem := (mem t4)(a \<mapsto> na\<lparr>n_child := (n_child na)(b := a1)\<rparr>)\<rparr>"
  note heap = alloc_retry_fields [OF assms(1)]
  note heap' = alloc_retry_fields [OF assms(5)]
  have pd: "put_descend t key v u 0 0 (Some (a, b)) q ps ex
              = Some (Inr (Continue (Some (a, b)) q i (n_key n ! i), t))"
    by (rule put_descend_split [OF assms(10-14)])
  have al1: "alloc_intermediate t key = Inr (a1, t2)"
    unfolding t2_def b1_def by (rule alloc_intermediate_ok [OF assms(1-4)])
  have ar2: "alloc_retry (alloc_retry_cnt t2) 0 t2 = (a2, t1'\<lparr>mem := (mem t)(a1 \<mapsto> b1)\<rparr>)"
    unfolding t2_def using assms(5) by (simp add: alloc_retry_mem)
  have m2: "mem t2 a2 = Some blk2" using assms(7,9) by (simp add: t2_def)
  have "alloc_new_leaf t2 key v
          = Inr (a2, t1'\<lparr>mem := (mem t)(a1 \<mapsto> b1)\<rparr>\<lparr>mem := (mem t2)(a2 \<mapsto> leaf)\<rparr>)"
    unfolding leaf_def by (rule alloc_new_leaf_ok [OF ar2 assms(6) m2 assms(8)])
  then have al2: "alloc_new_leaf t2 key v = Inr (a2, t3)" by (simp add: t3_def)
  have m3: "mem t3 a1 = Some b1" using assms(9) by (simp add: t3_def t2_def)
  have "link_leaf (key ! i) a2 i (n_key n ! i) q b1 = inter"
    by (simp add: link_leaf_def b1_def inter_def)
  with m3 have md: "modify_node t3 a1 (link_leaf (key ! i) a2 i (n_key n ! i) q) = Inr t4"
    by (simp add: modify_node_def t4_def)
  have "mem t4 a = Some na" using assms(16,18,19) by (simp add: t4_def t3_def t2_def)
  from cas64_ok [OF this assms(17), of a1] have cas: "cas64 t4 (Some (a, b)) q a1 = Inr (q, t5)"
    by (simp add: t5_def)
  have neq: "i \<noteq> length key" "\<not> length key \<le> i" using assms(15) by simp_all
  have "put_loop t key v u 0 0 (Some (a, b)) q ps ex = Some (Inr (TagGptr0, t5))"
    apply (subst put_loop.simps)
    apply (subst pd)
    apply (simp add: al1 al2 md cas assms(10) neq)
    done
  moreover have "root t5 = root t" "MAX_KEY_LEN t5 = MAX_KEY_LEN t"
    by (simp_all add: t5_def t4_def t3_def t2_def heap heap')
  moreover have "mem t5 = (mem t)(a1 \<mapsto> inter, a2 \<mapsto> leaf, a \<mapsto> na\<lparr>n_child := (n_child na)(b := a1)\<rparr>)"
    using assms(9) by (auto simp: t5_def t4_def t3_def t2_def fun_upd_twist)
  ultimately show ?thesis unfolding inter_def leaf_def by blast
qed

lemma frame_mono: "frame N t t' d' \<Longrightarrow> d \<le> d' \<Longrightarrow> frame N t t' d"
  unfolding frame_def by (meson le_trans less_le_trans not_le)

lemma put_descend_step_down:
  assumes "q \<noteq> 0" "mem t q = Some n"
    and "first_mismatch key (n_key n) (min (length key) (n_prefix_size n)) 0 = Inr (n_prefix_size n)"
    and "n_prefix_size n < length key"
  shows "put_descend t key v u nl im p q ps ex
           = put_descend t key v u nl im (Some (q, key ! n_prefix_size n))
               (n_child n (key ! n_prefix_size n)) ps ex"
proof -
  have tl: "toLocal t q = Some n" using assms(1,2) by (simp add: toLocal_def)
  show ?thesis using assms(1,3,4) tl by (subst put_descend.simps) simp
qed

lemma put_loop_down:
  assumes "q \<noteq> 0" "mem t q = Some n"
    and "first_mismatch key (n_key n) (min (length key) (n_prefix_size n)) 0 = Inr (n_prefix_size n)"
    and "n_prefix_size n < length key"
  shows "put_loop t key v u nl im p q ps ex
           = put_loop t key v u nl im (Some (q, key ! n_prefix_size n))
               (n_child n (key ! n_prefix_size n)) ps ex"
proof -
  have tl: "toLocal t q = Some n" using assms(1,2) by (simp add: toLocal_def)
  have pd: "put_descend t key v u nl im p q ps ex
              = put_descend t key v u nl im (Some (q, key ! n_prefix_size n))
                  (n_child n (key ! n_prefix_size n)) ps ex"
    using assms(1,3,4) tl by (subst put_descend.simps) simp
  show ?thesis
    unfolding put_loop.simps [of t key v u nl im p q ps ex]
      put_loop.simps [of t key v u nl im "Some (q, key ! n_prefix_size n)"
        "n_child n (key ! n_prefix_size n)" ps ex] pd
    by (rule refl)
qed

lemma wf_tree_node:
  assumes "wf_tree N t" "a \<in> N"
  shows "a \<noteq> 0 \<and> (\<exists>n. mem t a = Some n \<and> n_prefix_size n \<le> length (n_key n))"
  using assms unfolding wf_tree_def by (metis)

lemma wf_tree_child:
  assumes "wf_tree N t" "a \<in> N" "mem t a = Some n" "n_child n b \<noteq> 0"
  shows "n_child n b \<in> N \<and> (\<exists>c. mem t (n_child n b) = Some c \<and> n_prefix_size n < n_prefix_size c)"
proof -
  from assms(1,2) obtain n' where n': "mem t a = Some n'"
    and ch: "\<forall>b. n_child n' b \<noteq> 0 \<longrightarrow>
               n_child n' b \<in> N \<and> (\<exists>c. mem t (n_child n' b) = Some c \<and> n_prefix_size n' < n_prefix_size c)"
    unfolding wf_tree_def by blast
  from n' assms(3) have "n' = n" by simp
  with ch assms(4) show ?thesis by blast
qed

lemma wf_tree_root:
  assumes "wf_tree N t"
  shows "root t \<in> N \<and> root t \<noteq> 0 \<and> (\<exists>r. mem t (root t) = Some r \<and> n_prefix_size r = 0)"
  using assms unfolding wf_tree_def by (metis)

lemma wf_tree_path: "wf_tree N t \<Longrightarrow> wf_path N t key"
  unfolding wf_tree_def wf_path_def by blast

lemma wf_path_node:
  assumes "wf_path N t key" "a \<in> N"
  shows "a \<noteq> 0 \<and> (\<exists>n. mem t a = Some n \<and> n_prefix_size n \<le> length (n_key n))"
  using assms unfolding wf_path_def by (metis)



lemma frame_set_value: "wf_path N t key \<Longrightarrow> frame N t (set_value t q tq) d"
proof -
  assume wf: "wf_path N t key"
  show ?thesis
    unfolding frame_def
  proof
    fix x assume "x \<in> N"
    with wf_path_node [OF wf this] obtain n where n: "mem t x = Some n" by blast
    show "\<exists>n n'. mem t x = Some n \<and> mem (set_value t q tq) x = Some n'
            \<and> n_key n' = n_key n \<and> n_prefix_size n' = n_prefix_size n
            \<and> (n_prefix_size n < d \<longrightarrow> n_child n' = n_child n)"
    proof (cases "x = q")
      case True
      with n have "mem (set_value t q tq) x = Some (n\<lparr>n_value := tq\<rparr>)" by (simp add: set_value_def)
      with n show ?thesis by simp
    next
      case False
      with n have "mem (set_value t q tq) x = Some n"
        by (cases "mem t q") (simp_all add: set_value_def)
      with n show ?thesis by simp
    qed
  qed
qed


text \<open>
  What the three insertions leave unchanged: the memory after them differs from the one
  before at fresh blocks and at the child slot \<open>b\<close> of the node \<open>a\<close>.
\<close>

lemma frame_insert:
  assumes wf: "wf_path N t key" and a: "mem t a = Some na"
    and m: "\<forall>x \<in> N. x \<noteq> a \<longrightarrow> mem t' x = mem t x"
    and ma: "mem t' a = Some (na\<lparr>n_child := ch\<rparr>)"
  shows "frame N t t' (n_prefix_size na)"
  unfolding frame_def
proof
  fix x assume x: "x \<in> N"
  from wf_path_node [OF wf x] obtain n where n: "mem t x = Some n" by blast
  show "\<exists>n n'. mem t x = Some n \<and> mem t' x = Some n'
          \<and> n_key n' = n_key n \<and> n_prefix_size n' = n_prefix_size n
          \<and> (n_prefix_size n < n_prefix_size na \<longrightarrow> n_child n' = n_child n)"
  proof (cases "x = a")
    case True
    with a ma n show ?thesis by simp
  next
    case False
    with m x n have "mem t' x = Some n" by simp
    with n show ?thesis by simp
  qed
qed












section \<open>The trees that the constructor and put build\<close>

text \<open>
  On a heap that hands out zeroed blocks the constructor builds a tree with the
  invariant and \<open>put\<close> keeps it, and a tree with the invariant is well-formed. The
  child array of an intermediate node is zeroed by \<open>put\<close>; the one of a new leaf is
  left as the block holds it, which is why the blocks have to be zeroed.
\<close>

lemma tree_inv_wf: "tree_inv N t \<Longrightarrow> wf_tree N t"
  unfolding tree_inv_def wf_tree_def node_ok_def by blast

lemma tree_inv_node:
  assumes "tree_inv N t" "a \<in> N" "mem t a = Some n" "n_child n b \<noteq> 0"
  shows "\<exists>c. mem t (n_child n b) = Some c \<and> n_prefix_size n < n_prefix_size c
            \<and> take (Suc (n_prefix_size n)) (n_key c) = take (n_prefix_size n) (n_key n) @ [b]"
proof -
  from assms(1,2) have "node_ok N t a" by (simp add: tree_inv_def)
  with assms(3,4) show ?thesis unfolding node_ok_def by auto
qed

lemma heap_zeroedD:
  assumes "heap_zeroed t (Suc k)" "alloc_retry (alloc_retry_cnt t) 0 t = (a1, t1)"
    and "mem t a1 = Some blk1"
  shows "n_child blk1 = (\<lambda>_. 0)" "heap_zeroed t1 k"
  using assms by (auto simp: zeroed_block_def)

lemma node_ok_kept:
  assumes ok: "node_ok N t x" and sub: "N \<subseteq> N'" and fr: "frame N t t' 0"
    and x: "mem t x = Some n" "mem t' x = Some n'" "n_key n' = n_key n"
      "n_prefix_size n' = n_prefix_size n" "n_child n' = n_child n"
  shows "node_ok N' t' x"
proof -
  from ok x(1) have fits: "n_prefix_size n \<le> length (n_key n)"
    and ch: "\<And>b. n_child n b \<noteq> 0 \<Longrightarrow>
              n_child n b \<in> N
              \<and> (\<exists>c. mem t (n_child n b) = Some c \<and> n_prefix_size n < n_prefix_size c
                    \<and> take (Suc (n_prefix_size n)) (n_key c) = take (n_prefix_size n) (n_key n) @ [b])"
    by (auto simp: node_ok_def)
  have "n_child n' b \<in> N'
        \<and> (\<exists>c. mem t' (n_child n' b) = Some c \<and> n_prefix_size n' < n_prefix_size c
              \<and> take (Suc (n_prefix_size n')) (n_key c) = take (n_prefix_size n') (n_key n') @ [b])"
    if nz: "n_child n' b \<noteq> 0" for b
  proof -
    from nz x(5) have "n_child n b \<noteq> 0" by simp
    from ch [OF this] obtain c where cN: "n_child n b \<in> N" and c: "mem t (n_child n b) = Some c"
      "n_prefix_size n < n_prefix_size c"
      "take (Suc (n_prefix_size n)) (n_key c) = take (n_prefix_size n) (n_key n) @ [b]"
      by blast
    from fr cN c(1) obtain c' where c': "mem t' (n_child n b) = Some c'" "n_key c' = n_key c"
      "n_prefix_size c' = n_prefix_size c"
      unfolding frame_def by force
    from cN sub have "n_child n' b \<in> N'" using x(5) by auto
    moreover have "mem t' (n_child n' b) = Some c' \<and> n_prefix_size n' < n_prefix_size c'
              \<and> take (Suc (n_prefix_size n')) (n_key c') = take (n_prefix_size n') (n_key n') @ [b]"
      using c c' x(3,4,5) by simp
    ultimately show ?thesis by blast
  qed
  with x(2) fits x(3,4) show ?thesis unfolding node_ok_def by auto
qed

lemma node_ok_relinked:
  assumes ok: "node_ok N t a" and sub: "N \<subseteq> N'" and fr: "frame N t t' 0"
    and na: "mem t a = Some na"
    and ma: "mem t' a = Some (na\<lparr>n_child := (n_child na)(b := c)\<rparr>)"
    and c: "c \<in> N'" "mem t' c = Some nc" "n_prefix_size na < n_prefix_size nc"
      "take (Suc (n_prefix_size na)) (n_key nc) = take (n_prefix_size na) (n_key na) @ [b]"
  shows "node_ok N' t' a"
proof -
  let ?na' = "na\<lparr>n_child := (n_child na)(b := c)\<rparr>"
  from ok na have fits: "n_prefix_size na \<le> length (n_key na)"
    and ch: "\<And>b. n_child na b \<noteq> 0 \<Longrightarrow>
              n_child na b \<in> N
              \<and> (\<exists>c. mem t (n_child na b) = Some c \<and> n_prefix_size na < n_prefix_size c
                    \<and> take (Suc (n_prefix_size na)) (n_key c) = take (n_prefix_size na) (n_key na) @ [b])"
    by (auto simp: node_ok_def)
  have "n_child ?na' b' \<in> N'
        \<and> (\<exists>x. mem t' (n_child ?na' b') = Some x \<and> n_prefix_size ?na' < n_prefix_size x
              \<and> take (Suc (n_prefix_size ?na')) (n_key x) = take (n_prefix_size ?na') (n_key ?na') @ [b'])"
    if nz: "n_child ?na' b' \<noteq> 0" for b'
  proof (cases "b' = b")
    case True
    with c show ?thesis by simp
  next
    case False
    with nz have "n_child na b' \<noteq> 0" by simp
    from ch [OF this] obtain x where xN: "n_child na b' \<in> N" and x: "mem t (n_child na b') = Some x"
      "n_prefix_size na < n_prefix_size x"
      "take (Suc (n_prefix_size na)) (n_key x) = take (n_prefix_size na) (n_key na) @ [b']"
      by blast
    from fr xN x(1) obtain x' where x': "mem t' (n_child na b') = Some x'" "n_key x' = n_key x"
      "n_prefix_size x' = n_prefix_size x"
      unfolding frame_def by force
    from xN sub have "n_child ?na' b' \<in> N'" using False by auto
    moreover have "mem t' (n_child ?na' b') = Some x' \<and> n_prefix_size ?na' < n_prefix_size x'
              \<and> take (Suc (n_prefix_size ?na')) (n_key x') = take (n_prefix_size ?na') (n_key ?na') @ [b']"
      using x x' False by simp
    ultimately show ?thesis by blast
  qed
  moreover have "n_prefix_size ?na' \<le> length (n_key ?na')" using fits by simp
  ultimately show ?thesis using ma unfolding node_ok_def by blast
qed

lemma tree_inv_insert:
  assumes inv: "tree_inv N t"
    and aN: "a \<in> N" and na: "mem t a = Some na"
    and sub: "N \<subseteq> N'" and z: "0 \<notin> N'"
    and rt: "root t' = root t"
    and same: "\<forall>x \<in> N. x \<noteq> a \<longrightarrow> mem t' x = mem t x"
    and ma: "mem t' a = Some (na\<lparr>n_child := (n_child na)(b := c)\<rparr>)"
    and c: "c \<in> N'" "mem t' c = Some nc" "n_prefix_size na < n_prefix_size nc"
      "take (Suc (n_prefix_size na)) (n_key nc) = take (n_prefix_size na) (n_key na) @ [b]"
    and new: "\<forall>x \<in> N'. x \<notin> N \<longrightarrow> node_ok N' t' x"
  shows "tree_inv N' t'"
proof -
  note wf = tree_inv_wf [OF inv]
  from frame_mono [OF frame_insert [OF wf_tree_path [OF wf] na same ma]] have fr: "frame N t t' 0"
    by simp
  from inv have rN: "root t \<in> N" and r0: "\<exists>r. mem t (root t) = Some r \<and> n_prefix_size r = 0"
    and oks: "\<forall>x \<in> N. node_ok N t x"
    by (simp_all add: tree_inv_def)
  from fr rN r0 have "\<exists>r. mem t' (root t) = Some r \<and> n_prefix_size r = 0"
    unfolding frame_def by force
  moreover have "node_ok N' t' x" if xN': "x \<in> N'" for x
  proof (cases "x \<in> N")
    case False
    with new xN' show ?thesis by simp
  next
    case True
    with oks have ok: "node_ok N t x" by simp
    show ?thesis
    proof (cases "x = a")
      case True
      with ok show ?thesis using node_ok_relinked [OF _ sub fr na ma c] by simp
    next
      case False
      from ok obtain n where n: "mem t x = Some n" unfolding node_ok_def by blast
      with same True False have "mem t' x = Some n" by simp
      from node_ok_kept [OF ok sub fr n this] show ?thesis by simp
    qed
  qed
  ultimately show ?thesis using rN sub z rt unfolding tree_inv_def by auto
qed

lemma tree_inv_set_value:
  assumes inv: "tree_inv N t"
  shows "tree_inv N (set_value t q tq)"
proof -
  note wf = tree_inv_wf [OF inv]
  let ?t' = "set_value t q tq"
  have fr: "frame N t ?t' d" for d by (rule frame_set_value [OF wf_tree_path [OF wf]])
  from inv have rN: "root t \<in> N" and z: "0 \<notin> N"
    and r0: "\<exists>r. mem t (root t) = Some r \<and> n_prefix_size r = 0"
    and oks: "\<forall>x \<in> N. node_ok N t x"
    by (simp_all add: tree_inv_def)
  from fr [of 0] rN r0 have "\<exists>r. mem ?t' (root t) = Some r \<and> n_prefix_size r = 0"
    unfolding frame_def by force
  moreover have "node_ok N ?t' x" if xN: "x \<in> N" for x
  proof -
    from oks xN have ok: "node_ok N t x" by simp
    then obtain n where n: "mem t x = Some n" unfolding node_ok_def by blast
    have "\<exists>n'. mem ?t' x = Some n' \<and> n_key n' = n_key n \<and> n_prefix_size n' = n_prefix_size n
            \<and> n_child n' = n_child n"
    proof (cases "x = q")
      case True
      with n have "mem ?t' x = Some (n\<lparr>n_value := tq\<rparr>)" by (simp add: set_value_def)
      then show ?thesis by simp
    next
      case False
      with n have "mem ?t' x = Some n" by (cases "mem t q") (simp_all add: set_value_def)
      then show ?thesis by simp
    qed
    then obtain n' where "mem ?t' x = Some n'" "n_key n' = n_key n"
      "n_prefix_size n' = n_prefix_size n" "n_child n' = n_child n" by blast
    from node_ok_kept [OF ok subset_refl fr [of 0] n this] show ?thesis .
  qed
  ultimately show ?thesis using rN z unfolding tree_inv_def by simp
qed


lemma put_loop_keeps_inv:
  assumes inv: "tree_inv N t" and size: "length key \<le> MAX_KEY_LEN t"
  shows "slot_value t p = q \<Longrightarrow>
     p = None \<or> (\<exists>a b na. p = Some (a, b) \<and> a \<in> N \<and> mem t a = Some na
                    \<and> n_prefix_size na < length key
                    \<and> take (Suc (n_prefix_size na)) key = take (n_prefix_size na) (n_key na) @ [b]) \<Longrightarrow>
     q = 0 \<longrightarrow> p \<noteq> None \<Longrightarrow>
     heap_serves N t (nodes_allocated key (put_descend t key v True 0 0 p q ps ex)) \<Longrightarrow>
     heap_zeroed t (nodes_allocated key (put_descend t key v True 0 0 p q ps ex)) \<Longrightarrow>
     \<exists>old t' N'. put_loop t key v True 0 0 p q ps ex = Some (Inr (old, t'))
       \<and> MAX_KEY_LEN t' = MAX_KEY_LEN t \<and> N \<subseteq> N' \<and> tree_inv N' t'"
proof (induction "if q = 0 then 0 else Suc (length key - n_prefix_size (the (mem t q)))"
         arbitrary: p q ps ex rule: less_induct)
  case less
  note wf = tree_inv_wf [OF inv]
  from inv have z: "0 \<notin> N" by (simp add: tree_inv_def)
  show ?case
  proof (cases "q = 0")
    case True
    with less.prems obtain a b na where p: "p = Some (a, b)" and aN: "a \<in> N"
      and na: "mem t a = Some na" and pa: "n_prefix_size na < length key"
      and sk: "take (Suc (n_prefix_size na)) key = take (n_prefix_size na) (n_key na) @ [b]"
      by auto
    have ch0: "n_child na b = 0" using less.prems(1) True p na by (simp add: slot_value_def)
    from less.prems(4,5) True have hs: "heap_serves N t (Suc 0)" and hz: "heap_zeroed t (Suc 0)"
      by (simp_all add: put_descend_null nodes_allocated_def)
    from heap_servesD [OF hs] obtain a1 t1 blk1 where
      ar1: "alloc_retry (alloc_retry_cnt t) 0 t = (a1, t1)"
      and a1: "a1 \<noteq> 0" "a1 \<notin> N" "mem t a1 = Some blk1" "length (n_key blk1) = MAX_KEY_LEN t"
      by blast
    from heap_zeroedD(1) [OF hz ar1 a1(3)] have z1: "n_child blk1 = (\<lambda>_. 0)" .
    have len1: "length key \<le> length (n_key blk1)" using size a1(4) by simp
    define leaf1 where "leaf1 = blk1\<lparr>n_key := key @ drop (length key) (n_key blk1),
                           n_prefix_size := length key, n_value := \<lparr>gptr = v, tag = 0\<rparr>\<rparr>"
    have aa1: "a \<noteq> a1" using aN a1(2) by auto
    from put_loop_new_leaf [OF ar1 a1(1) a1(3) len1 na ch0 aa1, of v True ps ex]
    obtain t' where pl: "put_loop t key v True 0 0 (Some (a, b)) 0 ps ex = Some (Inr (TagGptr0, t'))"
      and rt: "root t' = root t" and mx: "MAX_KEY_LEN t' = MAX_KEY_LEN t"
      and mem': "mem t' = (mem t)(a1 \<mapsto> leaf1, a \<mapsto> na\<lparr>n_child := (n_child na)(b := a1)\<rparr>)"
      unfolding leaf1_def by blast
    have m1: "mem t' a1 = Some leaf1" using aa1 mem' by simp
    have ma: "mem t' a = Some (na\<lparr>n_child := (n_child na)(b := a1)\<rparr>)" using mem' by simp
    have others: "\<forall>x \<in> N. x \<noteq> a \<longrightarrow> mem t' x = mem t x" using mem' a1(2) by auto
    have ok1: "node_ok (insert a1 N) t' a1"
      unfolding node_ok_def using m1 z1 by (simp add: leaf1_def)
    have c3: "n_prefix_size na < n_prefix_size leaf1" using pa by (simp add: leaf1_def)
    have c4: "take (Suc (n_prefix_size na)) (n_key leaf1) = take (n_prefix_size na) (n_key na) @ [b]"
      using pa sk by (simp add: leaf1_def)
    have "tree_inv (insert a1 N) t'"
      by (rule tree_inv_insert [OF inv aN na _ _ rt others ma _ m1 c3 c4])
         (use z a1(1) ok1 in auto)
    with pl mx True p show ?thesis by blast
  next
    case nz: False
    have qN: "q \<in> N"
    proof (cases p)
      case None
      with less.prems(1) wf_tree_root [OF wf] show ?thesis by (simp add: slot_value_def)
    next
      case (Some ab)
      with less.prems(2) obtain a b na where p: "p = Some (a, b)" and aN: "a \<in> N"
        and na: "mem t a = Some na" by auto
      have "n_child na b = q" using less.prems(1) p na by (simp add: slot_value_def)
      with wf_tree_child [OF wf aN na, of b] nz show ?thesis by simp
    qed
    from wf_tree_node [OF wf qN] obtain n where n: "mem t q = Some n"
      and fits: "n_prefix_size n \<le> length (n_key n)" by blast
    let ?m = "min (length key) (n_prefix_size n)"
    have "?m \<le> length key" "?m \<le> length (n_key n)" using fits by simp_all
    from first_mismatch_result [OF _ this, of 0] obtain i where
      fm: "first_mismatch key (n_key n) ?m 0 = Inr i" and ile: "i \<le> ?m"
      and same: "\<forall>j. j < i \<longrightarrow> key ! j = n_key n ! j"
      and diff: "i < ?m \<longrightarrow> key ! i \<noteq> n_key n ! i"
      by auto
    show ?thesis
    proof (cases "i < n_prefix_size n")
      case split: True
      have "p \<noteq> None"
      proof
        assume "p = None"
        with less.prems(1) have "q = root t" by (simp add: slot_value_def)
        with wf_tree_root [OF wf] n have "n_prefix_size n = 0" by auto
        with split show False by simp
      qed
      with less.prems(2) obtain a b na where p: "p = Some (a, b)" and aN: "a \<in> N"
        and na: "mem t a = Some na" and pa: "n_prefix_size na < length key"
        and sk: "take (Suc (n_prefix_size na)) key = take (n_prefix_size na) (n_key na) @ [b]"
        by auto
      have ch: "n_child na b = q" using less.prems(1) p na by (simp add: slot_value_def)
      have iln: "i < length (n_key n)" using split fits by simp
      have pds: "put_descend t key v True 0 0 p q ps ex = Some (Inr (Continue p q i (n_key n ! i), t))"
        by (rule put_descend_split [OF nz n fm split iln])
      from tree_inv_node [OF inv aN na, of b] ch nz n
      have above: "n_prefix_size na < n_prefix_size n"
        and nk: "take (Suc (n_prefix_size na)) (n_key n) = take (n_prefix_size na) (n_key na) @ [b]"
        by auto
      have deeper: "n_prefix_size na < i"
      proof (rule ccontr)
        assume "\<not> n_prefix_size na < i"
        then have le: "i \<le> n_prefix_size na" by simp
        with pa above have "i < ?m" by simp
        with diff have ne: "key ! i \<noteq> n_key n ! i" by simp
        from nk sk have "take (Suc (n_prefix_size na)) key = take (Suc (n_prefix_size na)) (n_key n)"
          by simp
        then have "take (Suc (n_prefix_size na)) key ! i = take (Suc (n_prefix_size na)) (n_key n) ! i"
          by simp
        with le have "key ! i = n_key n ! i" by simp
        with ne show False by simp
      qed
      have qa: "q \<noteq> a"
      proof
        assume "q = a"
        with n na have "n = na" by simp
        with above show False by simp
      qed
      have tki: "take i (n_key n) = take i key"
        using same ile iln by (intro take_eq_of_nth) simp_all
      have nki: "take (Suc i) (n_key n) = take i key @ [n_key n ! i]"
        using iln tki by (simp add: take_Suc_conv_app_nth)
      show ?thesis
      proof (cases "i = length key")
        case True
        from less.prems(4,5) True have hs: "heap_serves N t (Suc 0)" and hz: "heap_zeroed t (Suc 0)"
          by (simp_all add: pds nodes_allocated_def)
        from heap_servesD [OF hs] obtain a1 t1 blk1 where
          ar1: "alloc_retry (alloc_retry_cnt t) 0 t = (a1, t1)"
          and a1: "a1 \<noteq> 0" "a1 \<notin> N" "mem t a1 = Some blk1" "length (n_key blk1) = MAX_KEY_LEN t"
          by blast
        have len1: "length key \<le> length (n_key blk1)" using size a1(4) by simp
        have aa1: "a \<noteq> a1" using aN a1(2) by auto
        define inter :: Node where "inter = \<lparr>n_key = key @ drop (length key) (n_key blk1), n_prefix_size = i,
                        n_child = (\<lambda>_. 0)(n_key n ! i := q), n_value = \<lparr>gptr = v, tag = 0\<rparr>\<rparr>"
        from put_loop_split_value [OF ar1 a1(1) a1(3) len1 nz n fm split iln True na ch aa1,
            of v True ps ex]
        obtain t' where pl: "put_loop t key v True 0 0 (Some (a, b)) q ps ex = Some (Inr (TagGptr0, t'))"
          and rt: "root t' = root t" and mx: "MAX_KEY_LEN t' = MAX_KEY_LEN t"
          and mem': "mem t' = (mem t)(a1 \<mapsto> inter, a \<mapsto> na\<lparr>n_child := (n_child na)(b := a1)\<rparr>)"
          unfolding inter_def by blast
        have m1: "mem t' a1 = Some inter" using aa1 mem' by simp
        have ma: "mem t' a = Some (na\<lparr>n_child := (n_child na)(b := a1)\<rparr>)" using mem' by simp
        have others: "\<forall>x \<in> N. x \<noteq> a \<longrightarrow> mem t' x = mem t x" using mem' a1(2) by auto
        have mq: "mem t' q = Some n" using others qN qa n by simp
        have ok1: "node_ok (insert a1 N) t' a1"
          unfolding node_ok_def
        proof (intro exI conjI allI impI)
          show "mem t' a1 = Some inter" by fact
          show "n_prefix_size inter \<le> length (n_key inter)" using True by (simp add: inter_def)
        next
          fix b' assume "n_child inter b' \<noteq> 0"
          then have b': "b' = n_key n ! i" and cq: "n_child inter b' = q"
            by (auto simp: inter_def split: if_splits)
          show "n_child inter b' \<in> insert a1 N" using cq qN by simp
          show "mem t' (n_child inter b') = Some n" using cq mq by simp
          show "n_prefix_size inter < n_prefix_size n" using split by (simp add: inter_def)
          show "take (Suc (n_prefix_size inter)) (n_key n) = take (n_prefix_size inter) (n_key inter) @ [b']"
            using nki b' True by (simp add: inter_def)
        qed
        have c3: "n_prefix_size na < n_prefix_size inter" using deeper by (simp add: inter_def)
        have c4: "take (Suc (n_prefix_size na)) (n_key inter) = take (n_prefix_size na) (n_key na) @ [b]"
          using pa sk by (simp add: inter_def)
        have "tree_inv (insert a1 N) t'"
          by (rule tree_inv_insert [OF inv aN na _ _ rt others ma _ m1 c3 c4])
             (use z a1(1) ok1 in auto)
        with pl mx p show ?thesis by blast
      next
        case False
        with ile have ilk: "i < length key" by simp
        with split diff have neq: "key ! i \<noteq> n_key n ! i" by simp
        from less.prems(4,5) False nz have hs: "heap_serves N t (Suc (Suc 0))"
          and hz: "heap_zeroed t (Suc (Suc 0))"
          by (simp_all add: pds nodes_allocated_def numeral_2_eq_2)
        from heap_servesD [OF hs] obtain a1 t1 blk1 where
          ar1: "alloc_retry (alloc_retry_cnt t) 0 t = (a1, t1)"
          and a1: "a1 \<noteq> 0" "a1 \<notin> N" "mem t a1 = Some blk1" "length (n_key blk1) = MAX_KEY_LEN t"
          and more: "heap_serves (insert a1 N) t1 (Suc 0)"
          by blast
        note heap1 = alloc_retry_fields [OF ar1]
        from heap_servesD [OF more] heap1 obtain a2 t1' blk2 where
          ar2: "alloc_retry (alloc_retry_cnt t1) 0 t1 = (a2, t1')"
          and a2: "a2 \<noteq> 0" "a2 \<notin> N" "mem t a2 = Some blk2" "length (n_key blk2) = MAX_KEY_LEN t"
          and a12: "a1 \<noteq> a2"
          by auto
        from heap_zeroedD(2) [OF hz ar1 a1(3)] have hz1: "heap_zeroed t1 (Suc 0)" .
        from a2(3) heap1(1) have "mem t1 a2 = Some blk2" by simp
        from heap_zeroedD(1) [OF hz1 ar2 this] have z2: "n_child blk2 = (\<lambda>_. 0)" .
        have len1: "length key \<le> length (n_key blk1)" and len2: "length key \<le> length (n_key blk2)"
          using size a1(4) a2(4) by simp_all
        have aa1: "a \<noteq> a1" and aa2: "a \<noteq> a2" using aN a1(2) a2(2) by auto
        define inter where "inter = blk1\<lparr>n_key := key @ drop (length key) (n_key blk1), n_prefix_size := i,
                        n_child := ((\<lambda>_. 0)(key ! i := a2))(n_key n ! i := q)\<rparr>"
        define leaf2 where "leaf2 = blk2\<lparr>n_key := key @ drop (length key) (n_key blk2),
                           n_prefix_size := length key, n_value := \<lparr>gptr = v, tag = 0\<rparr>\<rparr>"
        from put_loop_split_leaf [OF ar1 a1(1) a1(3) len1 ar2 a2(1) a2(3) len2 a12 nz n fm split iln ilk
            na ch aa1 aa2, of v True ps ex]
        obtain t' where pl: "put_loop t key v True 0 0 (Some (a, b)) q ps ex = Some (Inr (TagGptr0, t'))"
          and rt: "root t' = root t" and mx: "MAX_KEY_LEN t' = MAX_KEY_LEN t"
          and mem': "mem t' = (mem t)(a1 \<mapsto> inter, a2 \<mapsto> leaf2,
                                      a \<mapsto> na\<lparr>n_child := (n_child na)(b := a1)\<rparr>)"
          unfolding inter_def leaf2_def by blast
        have m1: "mem t' a1 = Some inter" using aa1 a12 mem' by simp
        have m2: "mem t' a2 = Some leaf2" using aa2 mem' by simp
        have ma: "mem t' a = Some (na\<lparr>n_child := (n_child na)(b := a1)\<rparr>)" using mem' by simp
        have others: "\<forall>x \<in> N. x \<noteq> a \<longrightarrow> mem t' x = mem t x" using mem' a1(2) a2(2) by auto
        have mq: "mem t' q = Some n" using others qN qa n by simp
        let ?N' = "insert a2 (insert a1 N)"
        have ok2: "node_ok ?N' t' a2"
          unfolding node_ok_def using m2 z2 by (simp add: leaf2_def)
        have ch1: "n_child inter b' \<in> ?N'
              \<and> (\<exists>c. mem t' (n_child inter b') = Some c \<and> n_prefix_size inter < n_prefix_size c
                  \<and> take (Suc (n_prefix_size inter)) (n_key c) = take (n_prefix_size inter) (n_key inter) @ [b'])"
          if c0: "n_child inter b' \<noteq> 0" for b'
        proof (cases "b' = n_key n ! i")
          case True
          then have "n_child inter b' = q" by (simp add: inter_def)
          moreover have "n_prefix_size inter < n_prefix_size n" using split by (simp add: inter_def)
          moreover have "take (Suc (n_prefix_size inter)) (n_key n) = take (n_prefix_size inter) (n_key inter) @ [b']"
            using nki True ilk by (simp add: inter_def)
          ultimately show ?thesis using mq qN by simp
        next
          case False
          with c0 have b': "b' = key ! i" and c2: "n_child inter b' = a2"
            by (auto simp: inter_def split: if_splits)
          have "n_prefix_size inter < n_prefix_size leaf2" using ilk by (simp add: inter_def leaf2_def)
          moreover have "take (Suc (n_prefix_size inter)) (n_key leaf2) = take (n_prefix_size inter) (n_key inter) @ [b']"
            using ilk b' by (simp add: inter_def leaf2_def take_Suc_conv_app_nth)
          ultimately show ?thesis using c2 m2 by simp
        qed
        have "n_prefix_size inter \<le> length (n_key inter)" using ilk by (simp add: inter_def)
        with m1 ch1 have ok1: "node_ok ?N' t' a1" unfolding node_ok_def by blast
        have c3: "n_prefix_size na < n_prefix_size inter" using deeper by (simp add: inter_def)
        have c4: "take (Suc (n_prefix_size na)) (n_key inter) = take (n_prefix_size na) (n_key na) @ [b]"
          using pa sk by (simp add: inter_def)
        have "tree_inv ?N' t'"
          by (rule tree_inv_insert [OF inv aN na _ _ rt others ma _ m1 c3 c4])
             (use z a1(1) a2(1) ok1 ok2 in auto)
        moreover have "N \<subseteq> ?N'" by auto
        ultimately show ?thesis using pl mx p by blast
      qed
    next
      case nosplit: False
      with ile have i_eq: "i = n_prefix_size n" and ple: "n_prefix_size n \<le> length key" by simp_all
      have tk: "take (n_prefix_size n) (n_key n) = take (n_prefix_size n) key"
        using same i_eq fits ple by (intro take_eq_of_nth) simp_all
      show ?thesis
      proof (cases "length key = n_prefix_size n")
        case True
        have "fam_memcmp key (n_key n) (min (n_prefix_size n) (length key)) = Inr 0"
          using tk fits True by (simp add: fam_memcmp_zero_iff)
        then have hit: "descend_step t key q = Inr Hit"
          using nz n True by (simp add: descend_step_def toLocal_def)
        have d: "descent t key q (Inr q)" by (rule descent.d_hit [OF nz hit])
        define tq where "tq = \<lparr>gptr = v, tag = tag (value_at t q) + 1\<rparr>"
        define t' where "t' = set_value t q tq"
        have pl: "put_loop t key v True 0 0 p q ps ex = Some (Inr (value_at t q, t'))"
          using descent_put_loop [OF d nz, of v True p ps ex] by (simp add: t'_def tq_def)
        have "tree_inv N t'" unfolding t'_def by (rule tree_inv_set_value [OF inv])
        moreover have "MAX_KEY_LEN t' = MAX_KEY_LEN t" by (simp add: t'_def)
        ultimately show ?thesis using pl by blast
      next
        case False
        with ple have lt: "n_prefix_size n < length key" by simp
        let ?b = "key ! n_prefix_size n"
        let ?c = "n_child n ?b"
        have fm': "first_mismatch key (n_key n) ?m 0 = Inr (n_prefix_size n)" using fm i_eq by simp
        have down: "put_loop t key v True 0 0 p q ps ex
                      = put_loop t key v True 0 0 (Some (q, ?b)) ?c ps ex"
          by (rule put_loop_down [OF nz n fm' lt])
        have sv0: "slot_value t (Some (q, ?b)) = ?c" using n by (simp add: slot_value_def)
        have smaller: "(if ?c = 0 then 0 else Suc (length key - n_prefix_size (the (mem t ?c))))
                < (if q = 0 then 0 else Suc (length key - n_prefix_size (the (mem t q))))"
        proof (cases "?c = 0")
          case True
          with nz show ?thesis by simp
        next
          case False
          from wf_tree_child [OF wf qN n False] obtain c where "mem t ?c = Some c"
            "n_prefix_size n < n_prefix_size c" by blast
          with nz n lt False show ?thesis by simp
        qed
        have "take (Suc (n_prefix_size n)) key = take (n_prefix_size n) (n_key n) @ [?b]"
          using lt tk by (simp add: take_Suc_conv_app_nth)
        with qN n lt have slot2: "Some (q, ?b) = None
            \<or> (\<exists>a b na. Some (q, ?b) = Some (a, b) \<and> a \<in> N \<and> mem t a = Some na
                    \<and> n_prefix_size na < length key
                    \<and> take (Suc (n_prefix_size na)) key = take (n_prefix_size na) (n_key na) @ [b])"
          by simp
        have slot3: "?c = 0 \<longrightarrow> Some (q, ?b) \<noteq> None" by simp
        have "put_descend t key v True 0 0 p q ps ex
                = put_descend t key v True 0 0 (Some (q, ?b)) ?c ps ex"
          by (rule put_descend_step_down [OF nz n fm' lt])
        with less.prems(4,5) have heap':
          "heap_serves N t (nodes_allocated key (put_descend t key v True 0 0 (Some (q, ?b)) ?c ps ex))"
          "heap_zeroed t (nodes_allocated key (put_descend t key v True 0 0 (Some (q, ?b)) ?c ps ex))"
          by simp_all
        from less.hyps [OF smaller sv0 slot2 slot3 heap'] down show ?thesis by simp
      qed
    qed
  qed
qed

lemma put_keeps_tree_inv:
  assumes "tree_inv N t" and "heap_serves N t (put_allocates t key v)"
    and "heap_zeroed t (put_allocates t key v)"
    and "0 < length key" and "length key \<le> MAX_KEY_LEN t"
  shows "\<exists>old t' N'. put t key v True = Some (Inr (old, t')) \<and> N \<subseteq> N' \<and> tree_inv N' t'"
proof -
  from wf_tree_root [OF tree_inv_wf [OF assms(1)]] have r: "root t \<noteq> 0" by simp
  have s1: "slot_value t None = root t" by (simp add: slot_value_def)
  from put_loop_keeps_inv [OF assms(1,5) s1, of v 0 0] r assms(2,3)
  obtain old t' N' where "put_loop t key v True 0 0 None (root t) 0 0 = Some (Inr (old, t'))"
    "N \<subseteq> N'" "tree_inv N' t'"
    by (auto simp: put_allocates_def)
  then show ?thesis using assms(4,5) by (auto simp: put_def)
qed

lemma RadixTree_new_tree_inv:
  assumes "root t = 0" and "allocs t = a # as" and "a \<noteq> 0" and "mem t a = Some blk"
  shows "\<exists>t'. RadixTree_new t = Inr t' \<and> tree_inv {a} t'"
proof -
  define r where "r = blk\<lparr>n_prefix_size := 0, n_child := (\<lambda>_. 0), n_value := TagGptr0\<rparr>"
  define t' where "t' = t\<lparr>allocs := as, root := a, mem := (mem t)(a \<mapsto> r)\<rparr>"
  have "RadixTree_new t = Inr t'"
    using assms by (simp add: RadixTree_new_def Alloc_def toLocal_def t'_def r_def)
  moreover have "tree_inv {a} t'"
    using assms(3) by (simp add: tree_inv_def node_ok_def t'_def r_def)
  ultimately show ?thesis by blast
qed

section \<open>The scan: what the code does at concrete inputs\<close>

text \<open>
  Claim C9. On the tree that holds only the key "AB" (built by the constructor and one
  \<open>put\<close>), the query key "A" agrees with the node "AB" on the common length 1 while the
  node's \<open>prefix_size\<close> 2 exceeds the key's length: \<open>get\<close> and \<open>destroy\<close> index the
  caller's key at position 2, past its end, and so does \<open>next_value\<close> with the end key
  "A" (in the \<open>get_next\<close> after the scan has yielded "AB").
\<close>

theorem key_indexed_past_its_end:
  "(case tree_of [([0x41, 0x42], 200)] of
      Some (Inr t) \<Rightarrow>
        get t [0x41] = Some (Inl Key_index_out_of_range)
        \<and> destroy t [0x41] = Some (Inl Key_index_out_of_range)
        \<and> (case scan t fresh_iter [0x30] False [0x41] True of
             Some (Inr (Some (k, v), iter)) \<Rightarrow>
               k = [0x41, 0x42] \<and> get_next t iter = Some (Inl Key_index_out_of_range)
           | _ \<Rightarrow> False)
    | _ \<Rightarrow> False)"
  by code_simp

text \<open>
  Claim C6. The code yields a key above the end key: on the tree that holds only "AB",
  the scan from "0" (exclusive) to "A" (inclusive) yields "AB", and "A" < "AB". In
  \<open>next_value\<close> the node "AB" compares equal to the end key "A" on the common length 1,
  its \<open>prefix_size\<close> differs from the end key's length, and the branch written for
  \<open>prefix_size < key_size\<close> yields the node's value. With an end key that holds a byte
  from 0x80 on, here "a" followed by 0x80 on the tree that holds only "a", the bound
  \<open>upper_bound + 1\<close> of the child loop lies beyond the 256 children: after "a" is
  yielded, \<open>get_next\<close> reads \<open>child[256]\<close>.
\<close>

theorem scan_yields_key_beyond_end:
  "(case tree_of [([0x41, 0x42], 200)] of
      Some (Inr t) \<Rightarrow>
        (case scan t fresh_iter [0x30] False [0x41] True of
           Some (Inr (r, iter)) \<Rightarrow> r = Some ([0x41, 0x42], \<lparr>gptr = 200, tag = 0\<rparr>)
         | _ \<Rightarrow> False)
    | _ \<Rightarrow> False)
   \<and> string_less [0x41] [0x41, 0x42]
   \<and> (case tree_of [([0x61], 2)] of
         Some (Inr t) \<Rightarrow>
           (case scan t fresh_iter [0x30] False [0x61, 0x80] False of
              Some (Inr (r, iter)) \<Rightarrow>
                r = Some ([0x61], \<lparr>gptr = 2, tag = 0\<rparr>)
                \<and> get_next t iter = Some (Inl Child_index_out_of_range)
            | _ \<Rightarrow> False)
       | _ \<Rightarrow> False)"
  by code_simp

text \<open>
  Claim C7. \<open>scan\<close> sets \<open>begin_key_open\<close> from the begin key and from the iterator's
  \<open>end_key_inclusive\<close> as the previous use of the iterator left it, not from the
  begin-side flag: with the open boundary key and \<open>begin_key_inclusive = false\<close> the
  begin side is not open when the iterator's old \<open>end_key_inclusive\<close> is true, and with
  \<open>begin_key_inclusive = true\<close> it is open when the old flag is false.
\<close>

theorem scan_begin_key_open_reads_end_flag:
  "it_begin_key_open (scan_init t iter begin_key begin_key_inclusive end_key end_key_inclusive)
     = (begin_key = OPEN_BOUNDARY_KEY t \<and> \<not> it_end_key_inclusive iter)
   \<and> (case tree_of [([0x61], 1)] of
         Some (Inr t) \<Rightarrow>
           (case scan t (fresh_iter\<lparr>it_end_key_inclusive := True\<rparr>) [0] False [0x7A] True of
              Some (Inr (r, iter)) \<Rightarrow> \<not> it_begin_key_open iter
            | _ \<Rightarrow> False)
           \<and> (case scan t fresh_iter [0] True [0x7A] True of
                Some (Inr (r, iter)) \<Rightarrow> it_begin_key_open iter
              | _ \<Rightarrow> False)
       | _ \<Rightarrow> False)"
proof (rule conjI)
  show "it_begin_key_open (scan_init t iter begin_key begin_key_inclusive end_key end_key_inclusive)
          = (begin_key = OPEN_BOUNDARY_KEY t \<and> \<not> it_end_key_inclusive iter)"
    by (simp add: scan_init_def Let_def)
next
  show "(case tree_of [([0x61], 1)] of
         Some (Inr t) \<Rightarrow>
           (case scan t (fresh_iter\<lparr>it_end_key_inclusive := True\<rparr>) [0] False [0x7A] True of
              Some (Inr (r, iter)) \<Rightarrow> \<not> it_begin_key_open iter
            | _ \<Rightarrow> False)
           \<and> (case scan t fresh_iter [0] True [0x7A] True of
                Some (Inr (r, iter)) \<Rightarrow> it_begin_key_open iter
              | _ \<Rightarrow> False)
       | _ \<Rightarrow> False)"
    by code_simp
qed

text \<open>
  Claim C5. The scan with both boundaries open depends on the iterator's old
  \<open>end_key_inclusive\<close> (the defect of claim C7). On the tree that holds only the key
  \<open>[0, 0x61]\<close>, the scan with a fresh iterator yields the key; with an iterator whose
  \<open>end_key_inclusive\<close> was left true the begin side is not open, \<open>lower_bound\<close> compares
  the begin key \<open>[0]\<close> with the node and indexes the begin key past its end, and the key
  is not yielded. On the tree that holds only the key \<open>[0]\<close> the same scan ends without
  yielding it.
\<close>

theorem scan_open_depends_on_old_flag:
  "(case tree_of [([0, 0x61], 7)] of
      Some (Inr t) \<Rightarrow>
        scan_all 3 t fresh_iter [0] False [0] False
          = Some (Inr [([0, 0x61], \<lparr>gptr = 7, tag = 0\<rparr>)])
        \<and> scan_all 3 t (fresh_iter\<lparr>it_end_key_inclusive := True\<rparr>) [0] False [0] False
          = Some (Inl Key_index_out_of_range)
    | _ \<Rightarrow> False)
   \<and> (case tree_of [([0], 7)] of
         Some (Inr t) \<Rightarrow>
           scan_all 3 t (fresh_iter\<lparr>it_end_key_inclusive := True\<rparr>) [0] False [0] False = Some (Inr [])
       | _ \<Rightarrow> False)"
  by code_simp

end
